theory Spec2Isabelle
  imports Main "HOL-Library.Word"
begin

unbundle bit_operations_syntax

section \<open>Bytes and big-endian integers\<close>

text \<open>
  A Go \<^verbatim>\<open>[]byte\<close> is a list of 8-bit words. Lengths are natural numbers. An
  \<^verbatim>\<open>int64\<close> timestamp and its \<^verbatim>\<open>uint64(timestamp)\<close> conversion share one bit
  pattern, a 64-bit word.
\<close>

type_synonym byte = "8 word"
type_synonym bytes = "byte list"
type_synonym u64 = "64 word"

text \<open>\<open>be_bytes k n\<close>: the \<open>k\<close> low-order bytes of \<open>n\<close>, most significant first.\<close>

fun be_bytes :: "nat \<Rightarrow> nat \<Rightarrow> bytes" where
  "be_bytes 0 n = []"
| "be_bytes (Suc k) n = word_of_nat (n div 256 ^ k) # be_bytes k n"

text \<open>\<open>be_nat bs\<close>: the number a big-endian byte string denotes.\<close>

definition be_nat :: "bytes \<Rightarrow> nat" where
  "be_nat bs = foldl (\<lambda>a b. a * 256 + unat b) 0 bs"

section \<open>The \<^verbatim>\<open>cryptobyte\<close> library (golang.org/x/crypto/cryptobyte)\<close>

text \<open>
  A \<^verbatim>\<open>Builder\<close> is either in its error state, where every further write is ignored, or
  holds the bytes written so far. A length-prefixed write runs its continuation on a
  child builder; \<^verbatim>\<open>flushChild\<close> propagates the child's error, and sets the error
  \<^verbatim>\<open>pending child length exceeds n-byte length prefix\<close> when the child's length does not
  fit the prefix.
\<close>

datatype builder = BErr | BOk bytes

definition new_builder :: builder where
  "new_builder = BOk []"

definition AddBytes :: "bytes \<Rightarrow> builder \<Rightarrow> builder" where
  "AddBytes v b = (case b of BErr \<Rightarrow> BErr | BOk r \<Rightarrow> BOk (r @ v))"

definition AddUint8 :: "byte \<Rightarrow> builder \<Rightarrow> builder" where
  "AddUint8 v b = AddBytes [v] b"

definition AddUint64 :: "u64 \<Rightarrow> builder \<Rightarrow> builder" where
  "AddUint64 v b = AddBytes (be_bytes 8 (unat v)) b"

definition addLengthPrefixed :: "nat \<Rightarrow> (builder \<Rightarrow> builder) \<Rightarrow> builder \<Rightarrow> builder" where
  "addLengthPrefixed lenLen f b =
     (case b of
        BErr \<Rightarrow> BErr
      | BOk r \<Rightarrow>
          (case f new_builder of
             BErr \<Rightarrow> BErr
           | BOk c \<Rightarrow>
               if length c < 256 ^ lenLen
               then BOk (r @ be_bytes lenLen (length c) @ c)
               else BErr))"

definition AddUint16LengthPrefixed :: "(builder \<Rightarrow> builder) \<Rightarrow> builder \<Rightarrow> builder" where
  "AddUint16LengthPrefixed = addLengthPrefixed 2"

definition AddUint24LengthPrefixed :: "(builder \<Rightarrow> builder) \<Rightarrow> builder \<Rightarrow> builder" where
  "AddUint24LengthPrefixed = addLengthPrefixed 3"

text \<open>
  Errors of the source, and the three ways a call ends: a value, an error return, a
  panic.
\<close>

datatype error =
    BuilderError
  | InvalidDataTile
  | UnknownEntryType byte
  | UnsupportedKeyType
  | SignerError
  | MarshalKeyError
  | FetchError
  | VerifierError
  | NoteOpenError
  | ParseCheckpointError
  | TimeBeforeSTH
  | OriginMismatch
  | UnexpectedExtension
  | TimeDidNotProgress
  | StoredHashesError
  | ReadTileDataError
  | UploadError
  | TreeHashError
  | HashFromTileError
  | ReadHashesCountError
  | InvalidLoadedTile
  | LeafHashMismatch
  | NoteSignError

datatype 'a result = Ok 'a | Error error | Panic

text \<open>Sequencing: the first error return or panic ends the computation.\<close>

fun rbind :: "'a result \<Rightarrow> ('a \<Rightarrow> 'b result) \<Rightarrow> 'b result" where
  "rbind (Ok a) f = f a"
| "rbind (Error e) f = Error e"
| "rbind Panic f = Panic"

definition Bytes :: "builder \<Rightarrow> bytes result" where
  "Bytes b = (case b of BErr \<Rightarrow> Error BuilderError | BOk r \<Rightarrow> Ok r)"

definition BytesOrPanic :: "builder \<Rightarrow> bytes result" where
  "BytesOrPanic b = (case b of BErr \<Rightarrow> Panic | BOk r \<Rightarrow> Ok r)"

text \<open>
  A \<^verbatim>\<open>cryptobyte.String\<close> is the unread remainder. \<^verbatim>\<open>read\<close> hands out the first
  \<open>n\<close> bytes and advances, or fails and leaves the string alone.
\<close>

definition read_bytes :: "nat \<Rightarrow> bytes \<Rightarrow> (bytes \<times> bytes) option" where
  "read_bytes n s = (if length s < n then None else Some (take n s, drop n s))"

definition ReadUint64 :: "bytes \<Rightarrow> (u64 \<times> bytes) option" where
  "ReadUint64 s = (case read_bytes 8 s of None \<Rightarrow> None | Some (v, s') \<Rightarrow> Some (word_of_nat (be_nat v), s'))"

definition ReadUint8 :: "bytes \<Rightarrow> (byte \<times> bytes) option" where
  "ReadUint8 s = (case read_bytes 1 s of None \<Rightarrow> None | Some (v, s') \<Rightarrow> Some (hd v, s'))"

definition readLengthPrefixed :: "nat \<Rightarrow> bytes \<Rightarrow> (bytes \<times> bytes) option" where
  "readLengthPrefixed lenLen s =
     (case read_bytes lenLen s of
        None \<Rightarrow> None
      | Some (lenBytes, s') \<Rightarrow> read_bytes (be_nat lenBytes) s')"

definition ReadUint16LengthPrefixed :: "bytes \<Rightarrow> (bytes \<times> bytes) option" where
  "ReadUint16LengthPrefixed = readLengthPrefixed 2"

definition ReadUint24LengthPrefixed :: "bytes \<Rightarrow> (bytes \<times> bytes) option" where
  "ReadUint24LengthPrefixed = readLengthPrefixed 3"

section \<open>The leaf codec\<close>

text \<open>The fixed-size array \<^verbatim>\<open>[32]byte\<close> is a 256-bit word, written out big-endian.\<close>

type_synonym hash = "256 word"

definition hash_bytes :: "hash \<Rightarrow> bytes" where
  "hash_bytes h = be_bytes 32 (unat h)"

record logEntry =
  cert :: bytes
  isPrecert :: bool
  issuerKeyHash :: hash
  preCertificate :: bytes
  precertSigningCert :: bytes

definition timestampedEntry :: "logEntry \<Rightarrow> u64 \<Rightarrow> builder \<Rightarrow> builder" where
  "timestampedEntry e timestamp b =
     (let b = AddUint64 timestamp b;
          b = (if \<not> isPrecert e
               then AddUint24LengthPrefixed (AddBytes (cert e)) (AddUint8 0 b)
               else AddUint24LengthPrefixed (AddBytes (cert e))
                      (AddBytes (hash_bytes (issuerKeyHash e)) (AddUint8 1 b)))
      in AddUint16LengthPrefixed (\<lambda>child. child) b)"

definition merkleTreeLeaf :: "logEntry \<Rightarrow> u64 \<Rightarrow> bytes result" where
  "merkleTreeLeaf e timestamp =
     BytesOrPanic (timestampedEntry e timestamp (AddUint8 0 (AddUint8 0 new_builder)))"

definition tileLeaf :: "logEntry \<Rightarrow> u64 \<Rightarrow> bytes result" where
  "tileLeaf e timestamp =
     (let b = timestampedEntry e timestamp new_builder;
          b = (if isPrecert e
               then AddUint24LengthPrefixed (AddBytes (precertSigningCert e))
                      (AddUint24LengthPrefixed (AddBytes (preCertificate e)) b)
               else b)
      in BytesOrPanic b)"

text \<open>
  \<^verbatim>\<open>ReadTileLeaf\<close> returns \<open>(timestampedEntry, cert, timestamp, rest)\<close>. The
  \<^verbatim>\<open>precert_entry\<close> case of the source is \<^verbatim>\<open>panic("unimplemented")\<close>.
\<close>

definition ReadTileLeaf :: "bytes \<Rightarrow> (bytes \<times> bytes \<times> u64 \<times> bytes) result" where
  "ReadTileLeaf tile =
     (case ReadUint64 tile of
        None \<Rightarrow> Error InvalidDataTile
      | Some (timestamp, s1) \<Rightarrow>
     (case ReadUint8 s1 of
        None \<Rightarrow> Error InvalidDataTile
      | Some (entryType, s2) \<Rightarrow>
          if entryType = 0 then
            (case ReadUint24LengthPrefixed s2 of
               None \<Rightarrow> Error InvalidDataTile
             | Some (c, s3) \<Rightarrow>
            (case ReadUint16LengthPrefixed s3 of
               None \<Rightarrow> Error InvalidDataTile
             | Some (extensions, s4) \<Rightarrow>
                 Ok (take (length tile - length s4) tile, c, timestamp, s4)))
          else if entryType = 1 then Panic
          else Error (UnknownEntryType entryType)))"

section \<open>SHA-256 (\<^verbatim>\<open>crypto/sha256\<close>)\<close>

text \<open>
  FIPS 180-4. The 32-bit words of the compression function are natural numbers below
  \<open>2^32\<close> with the wrap-around of addition written out; a digest is a \<^verbatim>\<open>[32]byte\<close>.
\<close>

definition add32 :: "nat \<Rightarrow> nat \<Rightarrow> nat" where
  "add32 a b = (a + b) mod 4294967296"

definition rotr :: "nat \<Rightarrow> nat \<Rightarrow> nat" where
  "rotr n x = x div 2 ^ n + (x mod 2 ^ n) * 2 ^ (32 - n)"

definition not32 :: "nat \<Rightarrow> nat" where
  "not32 x = 4294967295 - x"

definition Ch :: "nat \<Rightarrow> nat \<Rightarrow> nat \<Rightarrow> nat" where
  "Ch x y z = (x AND y) XOR (not32 x AND z)"

definition Maj :: "nat \<Rightarrow> nat \<Rightarrow> nat \<Rightarrow> nat" where
  "Maj x y z = (x AND y) XOR (x AND z) XOR (y AND z)"

definition bsig0 :: "nat \<Rightarrow> nat" where
  "bsig0 x = rotr 2 x XOR rotr 13 x XOR rotr 22 x"

definition bsig1 :: "nat \<Rightarrow> nat" where
  "bsig1 x = rotr 6 x XOR rotr 11 x XOR rotr 25 x"

definition ssig0 :: "nat \<Rightarrow> nat" where
  "ssig0 x = rotr 7 x XOR rotr 18 x XOR x div 2 ^ 3"

definition ssig1 :: "nat \<Rightarrow> nat" where
  "ssig1 x = rotr 17 x XOR rotr 19 x XOR x div 2 ^ 10"

text \<open>The round constants and the initial hash value, in decimal.\<close>

definition sha256_K :: "nat list" where
  "sha256_K = [
   1116352408, 1899447441, 3049323471, 3921009573, 961987163, 1508970993, 2453635748, 2870763221,
   3624381080, 310598401, 607225278, 1426881987, 1925078388, 2162078206, 2614888103, 3248222580,
   3835390401, 4022224774, 264347078, 604807628, 770255983, 1249150122, 1555081692, 1996064986,
   2554220882, 2821834349, 2952996808, 3210313671, 3336571891, 3584528711, 113926993, 338241895,
   666307205, 773529912, 1294757372, 1396182291, 1695183700, 1986661051, 2177026350, 2456956037,
   2730485921, 2820302411, 3259730800, 3345764771, 3516065817, 3600352804, 4094571909, 275423344,
   430227734, 506948616, 659060556, 883997877, 958139571, 1322822218, 1537002063, 1747873779,
   1955562222, 2024104815, 2227730452, 2361852424, 2428436474, 2756734187, 3204031479, 3329325298]"

definition sha256_init :: "nat list" where
  "sha256_init = [1779033703, 3144134277, 1013904242, 2773480762,
                  1359893119, 2600822924, 528734635, 1541459225]"

text \<open>The message schedule, from a sliding window of the last sixteen words.\<close>

fun schedule :: "nat \<Rightarrow> nat list \<Rightarrow> nat list" where
  "schedule 0 w = []"
| "schedule (Suc k) w =
     hd w # schedule k
       (tl w @ [add32 (add32 (add32 (ssig1 (w ! 14)) (w ! 9)) (ssig0 (w ! 1))) (w ! 0)])"

fun sha_round :: "nat list \<Rightarrow> nat \<times> nat \<Rightarrow> nat list" where
  "sha_round [a, b, c, d, e, f, g, h] (k, w) =
     (let t1 = add32 (add32 (add32 (add32 h (bsig1 e)) (Ch e f g)) k) w;
          t2 = add32 (bsig0 a) (Maj a b c)
      in [add32 t1 t2, a, b, c, add32 d t1, e, f, g])"
| "sha_round s _ = s"

fun chunks :: "nat \<Rightarrow> nat \<Rightarrow> 'a list \<Rightarrow> 'a list list" where
  "chunks 0 n xs = []"
| "chunks (Suc k) n xs = take n xs # chunks k n (drop n xs)"

definition compress :: "nat list \<Rightarrow> bytes \<Rightarrow> nat list" where
  "compress hs block =
     map2 add32 hs
       (foldl sha_round hs (zip sha256_K (schedule 64 (map be_nat (chunks 16 4 block)))))"

definition sha_pad :: "bytes \<Rightarrow> bytes" where
  "sha_pad m = m @ [128] @ replicate ((119 - length m mod 64) mod 64) 0
                 @ map (\<lambda>i. word_of_nat (8 * length m div 256 ^ i)) [7, 6, 5, 4, 3, 2, 1, 0]"

definition sha256 :: "bytes \<Rightarrow> hash" where
  "sha256 m =
     (let p = sha_pad m
      in word_of_nat (foldl (\<lambda>a w. a * 4294967296 + w) 0
           (foldl compress sha256_init (chunks (length p div 64) 64 p))))"

section \<open>The \<^verbatim>\<open>tlog\<close> library (golang.org/x/mod/sumdb/tlog)\<close>

text \<open>
  Tree sizes, record numbers and storage indexes are \<^verbatim>\<open>int64\<close> in Go. They are
  integers here, and no operation on them wraps: a log never holds \<open>2^63\<close> records.
  On the non-negative values they take, Go's shifts are multiplication and \<open>div\<close> by
  a power of two, and Go's \<^verbatim>\<open>/\<close> and \<^verbatim>\<open>%\<close> are \<open>div\<close> and \<open>mod\<close>.
\<close>

definition RecordHash :: "bytes \<Rightarrow> hash" where
  "RecordHash data = sha256 (0 # data)"

definition NodeHash :: "hash \<Rightarrow> hash \<Rightarrow> hash" where
  "NodeHash left right = sha256 (1 # hash_bytes left @ hash_bytes right)"

text \<open>\<^verbatim>\<open>for l := level; l > 0; l-- { n = 2*n + 1 }\<close>\<close>

fun level_down :: "nat \<Rightarrow> int \<Rightarrow> int" where
  "level_down 0 n = n"
| "level_down (Suc l) n = level_down l (2 * n + 1)"

text \<open>\<^verbatim>\<open>for ; n > 0; n >>= 1 { i += n }\<close>\<close>

function sum_halves :: "int \<Rightarrow> int \<Rightarrow> int" where
  "sum_halves i n = (if n > 0 then sum_halves (i + n) (n div 2) else i)"
  by pat_completeness auto
termination
  by (relation "measure (\<lambda>(i, n). nat n)") auto

declare sum_halves.simps [simp del]

definition StoredHashIndex :: "int \<Rightarrow> int \<Rightarrow> int" where
  "StoredHashIndex level n = sum_halves 0 (level_down (nat level) n) + level"

text \<open>
  \<^verbatim>\<open>bits.TrailingZeros64\<close>, on the non-negative integers below \<open>2^64\<close>: the number of
  trailing zero bits, and 64 for 0.
\<close>

function TrailingZeros64 :: "int \<Rightarrow> int" where
  "TrailingZeros64 x =
     (if x \<le> 0 then 64 else if odd x then 0 else 1 + TrailingZeros64 (x div 2))"
  by pat_completeness auto
termination
  by (relation "measure nat") auto

declare TrailingZeros64.simps [simp del]

lemma TrailingZeros64_nonneg: "0 \<le> TrailingZeros64 x"
proof (induction x rule: TrailingZeros64.induct)
  case (1 x)
  then show ?case by (subst TrailingZeros64.simps) auto
qed

text \<open>The loop of \<^verbatim>\<open>SplitStoredHashIndex\<close>: it ends with the record \<open>n\<close> and its first index.\<close>

function split_loop :: "int \<Rightarrow> int \<Rightarrow> int \<Rightarrow> int \<times> int" where
  "split_loop index n indexN =
     (let x = indexN + 1 + TrailingZeros64 (n + 1)
      in if x > index then (n, indexN) else split_loop index (n + 1) x)"
  by pat_completeness auto
termination
proof (relation "measure (\<lambda>(index, n, indexN). nat (index - indexN))")
  show "wf (measure (\<lambda>(index, n, indexN). nat (index - indexN)))" by simp
next
  fix index n indexN x :: int
  assume "x = indexN + 1 + TrailingZeros64 (n + 1)" and "\<not> index < x"
  then show "((index, n + 1, x), (index, n, indexN))
               \<in> measure (\<lambda>(index, n, indexN). nat (index - indexN))"
    using TrailingZeros64_nonneg [of "n + 1"] by simp
qed

declare split_loop.simps [simp del]

definition SplitStoredHashIndex :: "int \<Rightarrow> (int \<times> int) result" where
  "SplitStoredHashIndex index =
     (let n = index div 2;
          indexN = StoredHashIndex 0 n
      in if indexN > index then Panic
         else (case split_loop index n indexN of
                 (n', indexN') \<Rightarrow>
                   (let level = index - indexN' in Ok (level, n' div 2 ^ nat level))))"

record tile =
  H :: int
  L :: int
  N :: int
  W :: int

definition zero_tile :: tile where
  "zero_tile = \<lparr>H = 0, L = 0, N = 0, W = 0\<rparr>"

definition HashSize :: int where
  "HashSize = 32"

text \<open>\<^verbatim>\<open>tileForIndex\<close> returns the tile and the byte range of the hash within it.\<close>

definition tileForIndex :: "int \<Rightarrow> int \<Rightarrow> (tile \<times> int \<times> int) result" where
  "tileForIndex h index =
     rbind (SplitStoredHashIndex index) (\<lambda>(level, n).
          (let tL = level div h;
               level = level - tL * h;
               tN = n * 2 ^ nat level div 2 ^ nat h;
               n = n - tN * 2 ^ nat h div 2 ^ nat level;
               tW = (n + 1) * 2 ^ nat level
           in Ok (\<lparr>H = h, L = tL, N = tN, W = tW\<rparr>,
                  n * 2 ^ nat level * HashSize, (n + 1) * 2 ^ nat level * HashSize)))"

definition TileForIndex :: "int \<Rightarrow> int \<Rightarrow> tile result" where
  "TileForIndex h index =
     (if h \<le> 0 then Panic
      else rbind (tileForIndex h index) (\<lambda>(t, start, end). Ok t))"

text \<open>
  \<^verbatim>\<open>tileHash\<close> hashes the \<open>2^k\<close> hashes of a byte range up to one. On a single byte
  the left half \<^verbatim>\<open>data[:0]\<close> is empty and the call panics there.
\<close>

function tileHash :: "bytes \<Rightarrow> hash result" where
  "tileHash data =
     (if length data = 0 then Panic
      else if length data = 32 then Ok (word_of_nat (be_nat data))
      else if length data = 1 then Panic
      else (let n = length data div 2
            in rbind (tileHash (take n data)) (\<lambda>l.
               rbind (tileHash (drop n data)) (\<lambda>r. Ok (NodeHash l r)))))"
  by pat_completeness auto
termination
proof (relation "measure length", goal_cases)
  case 1
  show ?case by simp
next
  case (2 data n)
  then have "length data \<noteq> 0" by auto
  with 2 show ?case by simp
next
  case (3 data n l)
  then have "length data \<noteq> 0" "length data \<noteq> 1" by auto
  then have "2 \<le> length data" by arith
  with 3 show ?case by simp
qed

declare tileHash.simps [simp del]

text \<open>A Go slice expression \<^verbatim>\<open>data[start:end]\<close> panics out of range.\<close>

definition slice :: "bytes \<Rightarrow> int \<Rightarrow> int \<Rightarrow> bytes result" where
  "slice data start end' =
     (if 0 \<le> start \<and> start \<le> end' \<and> end' \<le> int (length data)
      then Ok (take (nat end' - nat start) (drop (nat start) data))
      else Panic)"

definition HashFromTile :: "tile \<Rightarrow> bytes \<Rightarrow> int \<Rightarrow> hash result" where
  "HashFromTile t data index =
     (if H t < 1 \<or> H t > 30 \<or> L t < 0 \<or> L t \<ge> 64 \<or> W t < 1 \<or> W t > 2 ^ nat (H t)
      then Error HashFromTileError
      else if int (length data) < W t * HashSize then Error HashFromTileError
      else rbind (tileForIndex (H t) index) (\<lambda>(t1, start, end').
             if L t \<noteq> L t1 \<or> N t \<noteq> N t1 \<or> W t < W t1 then Error HashFromTileError
             else rbind (slice data start end') tileHash))"

text \<open>A \<^verbatim>\<open>HashReader\<close> maps storage indexes to hashes, or fails.\<close>

type_synonym HashReader = "int list \<Rightarrow> hash list result"

definition ReadTileData :: "tile \<Rightarrow> HashReader \<Rightarrow> bytes result" where
  "ReadTileData t r =
     (let size' = (if W t = 0 then 2 ^ nat (H t) else W t);
          start = N t * 2 ^ nat (H t)
      in if size' < 0 then Panic
         else
           (let indexes = map (\<lambda>i. StoredHashIndex (H t * L t) (start + int i)) [0..<nat size']
            in rbind (r indexes) (\<lambda>hashes.
                 if length hashes \<noteq> length indexes then Error ReadHashesCountError
                 else Ok (concat (map hash_bytes hashes)))))"

text \<open>
  \<^verbatim>\<open>NewTiles\<close>: one pass per level while \<^verbatim>\<open>newTreeSize>>(H*level) > 0\<close>; the full tiles
  of the level, then its partial tile.
\<close>

function new_tiles_from :: "nat \<Rightarrow> int \<Rightarrow> int \<Rightarrow> nat \<Rightarrow> tile list" where
  "new_tiles_from h oldTreeSize newTreeSize level =
     (if h = 0 \<or> \<not> newTreeSize div 2 ^ (h * level) > 0 then []
      else
        (let oldN = oldTreeSize div 2 ^ (h * level);
             newN = newTreeSize div 2 ^ (h * level)
         in (if oldN = newN then []
             else map (\<lambda>n. \<lparr>H = int h, L = int level, N = n, W = 2 ^ h\<rparr>)
                      [oldN div 2 ^ h .. newN div 2 ^ h - 1]
                  @ (let n = newN div 2 ^ h; w = newN - n * 2 ^ h
                     in if w > 0 then [\<lparr>H = int h, L = int level, N = n, W = w\<rparr>] else []))
            @ new_tiles_from h oldTreeSize newTreeSize (Suc level)))"
  by pat_completeness auto
termination
proof (relation "measure (\<lambda>(h, oldTreeSize, newTreeSize, level). nat (newTreeSize div 2 ^ (h * level)))")
  show "wf (measure (\<lambda>(h, oldTreeSize, newTreeSize, level). nat (newTreeSize div 2 ^ (h * level))))"
    by simp
next
  fix h :: nat and oldTreeSize newTreeSize :: int and level :: nat
  assume a: "\<not> (h = 0 \<or> \<not> 0 < newTreeSize div 2 ^ (h * level))"
  define x where "x = newTreeSize div 2 ^ (h * level)"
  have x: "0 < x" using a by (simp add: x_def)
  have h: "0 < h" using a by simp
  have "(2::int) ^ (h * Suc level) = 2 ^ (h * level) * 2 ^ h"
    by (simp add: power_add mult.commute)
  then have "newTreeSize div 2 ^ (h * Suc level) = x div 2 ^ h"
    by (simp only: x_def zdiv_zmult2_eq zero_le_numeral zero_le_power)
  moreover have "x div 2 ^ h < x"
    using x h by (intro int_div_less_self) (simp_all add: self_le_ge2_pow order_less_le_trans)
  ultimately show "((h, oldTreeSize, newTreeSize, Suc level), (h, oldTreeSize, newTreeSize, level))
      \<in> measure (\<lambda>(h, oldTreeSize, newTreeSize, level). nat (newTreeSize div 2 ^ (h * level)))"
    using x by (simp add: x_def)
qed

declare new_tiles_from.simps [simp del]

definition NewTiles :: "int \<Rightarrow> int \<Rightarrow> int \<Rightarrow> tile list result" where
  "NewTiles h oldTreeSize newTreeSize =
     (if h \<le> 0 then Panic else Ok (new_tiles_from (nat h) oldTreeSize newTreeSize 0))"

text \<open>
  \<^verbatim>\<open>StoredHashesForRecordHash\<close>: the record hash, then one interior hash for each subtree
  that record \<open>n\<close> completes, computed from the left siblings read from storage.
\<close>

fun node_chain :: "hash \<Rightarrow> hash list \<Rightarrow> hash list" where
  "node_chain h [] = [h]"
| "node_chain h (old # olds) = h # node_chain (NodeHash old h) olds"

definition StoredHashesForRecordHash :: "int \<Rightarrow> hash \<Rightarrow> HashReader \<Rightarrow> hash list result" where
  "StoredHashesForRecordHash n h r =
     (let m = nat (TrailingZeros64 (n + 1));
          indexes = rev (map (\<lambda>i. StoredHashIndex (int i) (n div 2 ^ i - 1)) [0..<m])
      in rbind (r indexes) (\<lambda>old.
           if length old \<noteq> length indexes then Error ReadHashesCountError
           else Ok (node_chain h (rev old))))"

definition StoredHashes :: "int \<Rightarrow> bytes \<Rightarrow> HashReader \<Rightarrow> hash list result" where
  "StoredHashes n data r = StoredHashesForRecordHash n (RecordHash data) r"

text \<open>\<^verbatim>\<open>maxpow2 n\<close>: the exponent \<open>l\<close> of the largest power of two below \<open>n\<close>.\<close>

function maxpow2_loop :: "int \<Rightarrow> nat \<Rightarrow> nat" where
  "maxpow2_loop n l = (if 2 ^ (l + 1) < n then maxpow2_loop n (l + 1) else l)"
  by pat_completeness auto
termination
proof (relation "measure (\<lambda>(n, l). nat (n - 2 ^ (l + 1)))")
  show "wf (measure (\<lambda>(n, l). nat (n - 2 ^ (l + 1))))" by simp
next
  fix n :: int and l :: nat
  assume "2 ^ (l + 1) < n"
  then show "((n, l + 1), (n, l)) \<in> measure (\<lambda>(n, l). nat (n - 2 ^ (l + 1)))"
    by simp
qed

declare maxpow2_loop.simps [simp del]

definition maxpow2 :: "int \<Rightarrow> int \<times> nat" where
  "maxpow2 n = (let l = maxpow2_loop n 0 in (2 ^ l, l))"

text \<open>
  \<^verbatim>\<open>subTreeIndex lo hi need\<close>: the storage indexes of the maximal complete subtrees that
  cover the records \<open>[lo, hi)\<close>.
\<close>

function subTreeIndex :: "int \<Rightarrow> int \<Rightarrow> int list \<Rightarrow> int list result" where
  "subTreeIndex lo hi need =
     (if lo < hi then
        (case maxpow2 (hi - lo + 1) of
           (k, level) \<Rightarrow>
             if lo AND (k - 1) \<noteq> 0 then Panic
             else subTreeIndex (lo + k) hi (need @ [StoredHashIndex (int level) (lo div 2 ^ level)]))
      else Ok need)"
  by pat_completeness auto
termination
  by (relation "measure (\<lambda>(lo, hi, need). nat (hi - lo))") (auto simp: maxpow2_def Let_def)

declare subTreeIndex.simps [simp del]

text \<open>The number of those subtrees, counted by the same loop in \<^verbatim>\<open>subTreeHash\<close>.\<close>

function numTree :: "int \<Rightarrow> int \<Rightarrow> nat \<Rightarrow> nat result" where
  "numTree lo hi c =
     (if lo < hi then
        (case maxpow2 (hi - lo + 1) of
           (k, level) \<Rightarrow>
             if lo AND (k - 1) \<noteq> 0 \<or> lo \<ge> hi then Panic
             else numTree (lo + k) hi (c + 1))
      else Ok c)"
  by pat_completeness auto
termination
  by (relation "measure (\<lambda>(lo, hi, c). nat (hi - lo))") (auto simp: maxpow2_def Let_def)

declare numTree.simps [simp del]

text \<open>\<^verbatim>\<open>h := hashes[numTree-1]; for i := numTree - 2; i >= 0; i-- { h = NodeHash(hashes[i], h) }\<close>\<close>

definition subTreeHash :: "int \<Rightarrow> int \<Rightarrow> hash list \<Rightarrow> (hash \<times> hash list) result" where
  "subTreeHash lo hi hashes =
     rbind (numTree lo hi 0) (\<lambda>k.
       if length hashes < k \<or> k = 0 then Panic
       else Ok (foldr NodeHash (take (k - 1) hashes) (hashes ! (k - 1)), drop k hashes))"

definition TreeHash :: "int \<Rightarrow> HashReader \<Rightarrow> hash result" where
  "TreeHash n r =
     (if n = 0 then Ok 0
      else rbind (subTreeIndex 0 n []) (\<lambda>indexes.
           rbind (r indexes) (\<lambda>hashes.
             if length hashes \<noteq> length indexes then Error ReadHashesCountError
             else rbind (subTreeHash 0 n hashes) (\<lambda>(hash, rest).
                    if rest \<noteq> [] then Panic else Ok hash))))"

section \<open>The log (\<^verbatim>\<open>internal/ctlog/ctlog.go\<close>)\<close>

definition tileHeight :: int where
  "tileHeight = 10"

definition tileWidth :: int where
  "tileWidth = 2 ^ nat tileHeight"

record treeWithTimestamp =
  Tree_N :: int
  Tree_Hash :: hash
  Time :: u64

record tileWithBytes =
  Tile :: tile
  B :: bytes

text \<open>Reading a missing key of a Go map gives the zero value.\<close>

definition zero_tileWithBytes :: tileWithBytes where
  "zero_tileWithBytes = \<lparr>Tile = zero_tile, B = []\<rparr>"

definition lookup_tile :: "(int \<rightharpoonup> tileWithBytes) \<Rightarrow> int \<Rightarrow> tileWithBytes" where
  "lookup_tile m k = (case m k of None \<Rightarrow> zero_tileWithBytes | Some t \<Rightarrow> t)"

text \<open>
  A \<^verbatim>\<open>crypto.Signer\<close>: the kind of its public key, the outcome of
  \<^verbatim>\<open>x509.MarshalPKIXPublicKey(key.Public())\<close>, and \<^verbatim>\<open>Sign\<close> on a digest (\<open>None\<close>: an
  error).
\<close>

datatype pubkey = RSA | ECDSA | OtherKey

record signer =
  Public :: pubkey
  MarshalPKIX :: "bytes option"
  Sign :: "bytes \<Rightarrow> bytes option"

text \<open>
  Object keys of the backend: \<^verbatim>\<open>"sth"\<close>, and the path of a tile,
  \<^verbatim>\<open>tile/H/L/N\<close> with the suffix \<^verbatim>\<open>.p/W\<close> when the tile is partial.
\<close>

datatype key = KeySth | KeyTile int int int "int option"

definition Path :: "tile \<Rightarrow> key" where
  "Path t = KeyTile (H t) (L t) (N t) (if W t \<noteq> 2 ^ nat (H t) then Some (W t) else None)"

type_synonym store = "key \<rightharpoonup> bytes"

record checkpoint =
  Origin :: string
  cp_N :: int
  cp_Hash :: hash
  Extension :: string

text \<open>
  What a call reads from outside the program: the clock, the outcome of each
  \<^verbatim>\<open>backend.Upload\<close> (\<open>None\<close>: persisted), and the note and checkpoint code of
  \<^verbatim>\<open>internal/tlogx\<close> and \<^verbatim>\<open>golang.org/x/mod/sumdb\<close>, whose sources are not part of
  \<^verbatim>\<open>ctlog.go\<close>:
  \<^item> \<open>NoteSign name alg key sig c\<close> is \<^verbatim>\<open>tlogx.NewInjectedSigner(name, alg, key, sig)\<close>
    followed by \<^verbatim>\<open>note.Sign\<close> of the text \<^verbatim>\<open>tlogx.MarshalCheckpoint(c)\<close>;
  \<^item> \<open>NoteOpen name pub sth\<close> is \<^verbatim>\<open>tlogx.NewRFC6962Verifier(name, pub)\<close> followed by
    \<^verbatim>\<open>note.Open\<close>; it yields the note's text and the timestamp handed to the
    verifier's \<^verbatim>\<open>Timestamp\<close> callback;
  \<^item> \<open>TileHashReader store n h indexes\<close> is
    \<^verbatim>\<open>tlog.TileHashReader(tree, tileReader).ReadHashes(indexes)\<close>; it yields the tiles
    and data it handed to \<^verbatim>\<open>SaveTiles\<close>, in order.
\<close>

record env =
  timeNowUnixMilli :: u64
  Upload :: "key \<Rightarrow> bytes \<Rightarrow> error option"
  NoteSign :: "string \<Rightarrow> byte \<Rightarrow> bytes \<Rightarrow> bytes \<Rightarrow> checkpoint \<Rightarrow> bytes result"
  NoteOpen :: "string \<Rightarrow> pubkey \<Rightarrow> bytes \<Rightarrow> (bytes \<times> u64) result"
  ParseCheckpoint :: "bytes \<Rightarrow> checkpoint result"
  TileHashReader :: "store \<Rightarrow> int \<Rightarrow> hash \<Rightarrow> int list \<Rightarrow> (tile \<times> bytes) list result"

definition Fetch :: "store \<Rightarrow> key \<Rightarrow> bytes result" where
  "Fetch s k = (case s k of None \<Rightarrow> Error FetchError | Some b \<Rightarrow> Ok b)"

record pool =
  pendingLeaves :: "logEntry list"
  done_closed :: bool
  firstLeafIndex :: int
  timestamp :: u64

text \<open>
  \<open>done_closed\<close> is the state of the channel \<^verbatim>\<open>done\<close>. A new pool is
  \<^verbatim>\<open>&pool{done: make(chan struct{})}\<close>.
\<close>

definition new_pool :: pool where
  "new_pool = \<lparr>pendingLeaves = [], done_closed = False, firstLeafIndex = 0, timestamp = 0\<rparr>"

text \<open>
  The log, with the objects it points to: \<open>pools\<close> is the heap of pool objects and
  \<open>currentPool\<close> an address in it; \<open>backend\<close> is the content of the object storage.
  A new pool is allocated at the address after the current one, so every address above
  \<open>currentPool\<close> is fresh.
\<close>

record Log =
  name :: string
  logID :: hash
  privKey :: signer
  tree :: treeWithTimestamp
  edgeTiles :: "int \<rightharpoonup> tileWithBytes"
  currentPool :: nat
  pools :: "nat \<Rightarrow> pool"
  backend :: store

subsection \<open>Signing a tree head\<close>

definition digitallySign :: "signer \<Rightarrow> bytes \<Rightarrow> bytes result" where
  "digitallySign k msg =
     (let h = sha256 msg
      in case Sign k (hash_bytes h) of
           None \<Rightarrow> Error SignerError
         | Some sig \<Rightarrow>
             (let b = AddUint8 4 new_builder
              in case Public k of
                   RSA \<Rightarrow> Bytes (AddUint16LengthPrefixed (AddBytes sig) (AddUint8 1 b))
                 | ECDSA \<Rightarrow> Bytes (AddUint16LengthPrefixed (AddBytes sig) (AddUint8 3 b))
                 | OtherKey \<Rightarrow> Error UnsupportedKeyType))"

text \<open>
  \<^verbatim>\<open>ct.SerializeSTHSignatureInput\<close> (certificate-transparency-go) of a v1 tree head:
  version 0, signature type 1 (tree hash), timestamp, tree size, root hash.
\<close>

definition SerializeSTHSignatureInput :: "treeWithTimestamp \<Rightarrow> bytes" where
  "SerializeSTHSignatureInput t =
     [0, 1] @ be_bytes 8 (unat (Time t)) @ be_bytes 8 (nat (Tree_N t mod 2 ^ 64))
       @ hash_bytes (Tree_Hash t)"

definition signTreeHead :: "env \<Rightarrow> string \<Rightarrow> hash \<Rightarrow> signer \<Rightarrow> treeWithTimestamp \<Rightarrow> bytes result" where
  "signTreeHead ev nm lid k t =
     rbind (digitallySign k (SerializeSTHSignatureInput t)) (\<lambda>treeHeadSignature.
     rbind (Bytes (AddBytes treeHeadSignature (AddUint64 (Time t) new_builder))) (\<lambda>sig.
       NoteSign ev nm 5 (hash_bytes lid) sig
         \<lparr>Origin = nm, cp_N = Tree_N t, cp_Hash = Tree_Hash t, Extension = []\<rparr>))"

subsection \<open>\<^verbatim>\<open>CreateLog\<close> and \<^verbatim>\<open>LoadLog\<close>\<close>

text \<open>\<^verbatim>\<open>tlog.Tree{}\<close> is the zero value: size 0 and the all-zero hash.\<close>

definition CreateLog :: "env \<Rightarrow> string \<Rightarrow> signer \<Rightarrow> store \<Rightarrow> unit result \<times> store" where
  "CreateLog ev nm k s =
     (case MarshalPKIX k of
        None \<Rightarrow> (Error MarshalKeyError, s)
      | Some pk \<Rightarrow>
          (let lid = sha256 pk;
               t = \<lparr>Tree_N = 0, Tree_Hash = 0, Time = timeNowUnixMilli ev\<rparr>
           in case signTreeHead ev nm lid k t of
                Error e \<Rightarrow> (Error e, s)
              | Panic \<Rightarrow> (Panic, s)
              | Ok cp \<Rightarrow>
                  (case Upload ev KeySth cp of
                     Some e \<Rightarrow> (Error e, s)
                   | None \<Rightarrow> (Ok (), s(KeySth \<mapsto> cp)))))"

text \<open>The \<^verbatim>\<open>saveTiles\<close> callback of \<^verbatim>\<open>LoadLog\<close>, on one tile.\<close>

definition save_tile :: "(int \<rightharpoonup> tileWithBytes) \<Rightarrow> tile \<times> bytes \<Rightarrow> (int \<rightharpoonup> tileWithBytes)" where
  "save_tile edge td =
     (case td of (ti, data) \<Rightarrow>
        (case edge (L ti) of
           None \<Rightarrow> edge(L ti \<mapsto> \<lparr>Tile = ti, B = data\<rparr>)
         | Some t \<Rightarrow>
             if N (Tile t) < N ti \<or> (N (Tile t) = N ti \<and> W (Tile t) < W ti)
             then edge(L ti \<mapsto> \<lparr>Tile = ti, B = data\<rparr>)
             else edge))"

text \<open>
  The loop over the leaves of the data tile: \<open>k\<close> iterations from index \<open>i\<close>, each
  checking one leaf against the level-0 hash of the edge tile \<open>t0\<close>.
\<close>

fun check_leaves :: "tileWithBytes \<Rightarrow> bytes \<Rightarrow> int \<Rightarrow> nat \<Rightarrow> unit result" where
  "check_leaves t0 b i 0 = Ok ()"
| "check_leaves t0 b i (Suc k) =
     (case ReadTileLeaf b of
        Error e \<Rightarrow> Error InvalidLoadedTile
      | Panic \<Rightarrow> Panic
      | Ok (te, c, ts, rest) \<Rightarrow>
          (let got = RecordHash ([0, 0] @ te)
           in rbind (HashFromTile (Tile t0) (B t0) (StoredHashIndex 0 i)) (\<lambda>exp.
                if got \<noteq> exp then Error LeafHashMismatch
                else check_leaves t0 rest (i + 1) k)))"

definition load_edge_tiles :: "env \<Rightarrow> store \<Rightarrow> checkpoint \<Rightarrow> (int \<rightharpoonup> tileWithBytes) result" where
  "load_edge_tiles ev s c =
     rbind (TileHashReader ev s (cp_N c) (cp_Hash c) [StoredHashIndex 0 (cp_N c - 1)]) (\<lambda>saved.
       (let edge = foldl save_tile Map.empty saved;
            dt = (Tile (lookup_tile edge 0))\<lparr>L := - 1\<rparr>
        in rbind (Fetch s (Path dt)) (\<lambda>b.
             (let edge = edge(- 1 \<mapsto> \<lparr>Tile = dt, B = b\<rparr>);
                  start = tileWidth * N dt
              in rbind (check_leaves (lookup_tile edge 0) b start (nat (W dt))) (\<lambda>u.
                   Ok edge)))))"

definition LoadLog :: "env \<Rightarrow> string \<Rightarrow> signer \<Rightarrow> store \<Rightarrow> Log result" where
  "LoadLog ev nm k s =
     (case MarshalPKIX k of
        None \<Rightarrow> Error MarshalKeyError
      | Some pk \<Rightarrow>
          (let lid = sha256 pk
           in rbind (Fetch s KeySth) (\<lambda>sth.
              rbind (NoteOpen ev nm (Public k) sth) (\<lambda>(text, ts).
              rbind (ParseCheckpoint ev text) (\<lambda>c.
                if sint (timeNowUnixMilli ev) < sint ts then Error TimeBeforeSTH
                else if Origin c \<noteq> nm then Error OriginMismatch
                else if Extension c \<noteq> [] then Error UnexpectedExtension
                else rbind (if cp_N c > 0 then load_edge_tiles ev s c else Ok Map.empty)
                       (\<lambda>edge.
                          Ok \<lparr>name = nm, logID = lid, privKey = k,
                              tree = \<lparr>Tree_N = cp_N c, Tree_Hash = cp_Hash c, Time = ts\<rparr>,
                              edgeTiles = edge, currentPool = 0,
                              pools = (\<lambda>a. new_pool), backend = s\<rparr>))))))"

subsection \<open>The pool\<close>

text \<open>
  \<^verbatim>\<open>addLeafToPool\<close> returns the log and the future: the address of the pool and the
  position \<open>n\<close> of the leaf in it. \<open>await\<close> is a call of the future: \<open>None\<close> while the
  pool's \<^verbatim>\<open>done\<close> channel is open (the caller blocks).
\<close>

definition addLeafToPool :: "Log \<Rightarrow> logEntry \<Rightarrow> Log \<times> (nat \<times> nat)" where
  "addLeafToPool l leaf =
     (let p = currentPool l;
          n = length (pendingLeaves (pools l p))
      in (l\<lparr>pools := (pools l)(p := (pools l p)\<lparr>pendingLeaves := pendingLeaves (pools l p) @ [leaf]\<rparr>)\<rparr>,
          (p, n)))"

definition await :: "Log \<Rightarrow> nat \<times> nat \<Rightarrow> int option" where
  "await l fut =
     (case fut of (p, n) \<Rightarrow>
        if done_closed (pools l p) then Some (firstLeafIndex (pools l p) + int n) else None)"

subsection \<open>\<^verbatim>\<open>sequencePool\<close>\<close>

text \<open>The \<^verbatim>\<open>hashReader\<close> closure over the log's edge tiles and the overlay.\<close>

fun hashReader :: "(int \<rightharpoonup> tileWithBytes) \<Rightarrow> (int \<rightharpoonup> hash) \<Rightarrow> HashReader" where
  "hashReader edge overlay [] = Ok []"
| "hashReader edge overlay (i # ids) =
     rbind (case overlay i of
              Some h \<Rightarrow> Ok h
            | None \<Rightarrow>
                rbind (TileForIndex tileHeight i) (\<lambda>ti.
                  (let t = lookup_tile edge (L ti)
                   in HashFromTile (Tile t) (B t) i)))
       (\<lambda>h. rbind (hashReader edge overlay ids) (\<lambda>list. Ok (h # list)))"

text \<open>
  The local variables of a round: \<open>n\<close>, the overlay \<open>newHashes\<close>, \<open>dataTile\<close>, the
  working copy of the edge tiles, and the uploads handed to the errgroup so far.
\<close>

record round =
  r_n :: int
  newHashes :: "int \<rightharpoonup> hash"
  dataTile :: bytes
  r_edgeTiles :: "int \<rightharpoonup> tileWithBytes"
  uploads :: "(key \<times> bytes) list"

text \<open>\<^verbatim>\<open>for i, h := range hashes { newHashes[StoredHashIndex(0, n) + int64(i)] = h }\<close>\<close>

fun put_hashes :: "int \<Rightarrow> hash list \<Rightarrow> (int \<rightharpoonup> hash) \<Rightarrow> (int \<rightharpoonup> hash)" where
  "put_hashes i [] m = m"
| "put_hashes i (h # hs) m = put_hashes (i + 1) hs (m(i \<mapsto> h))"

text \<open>The data tile of the tree's last leaf, recorded and handed to the errgroup.\<close>

definition flush_data_tile :: "round \<Rightarrow> bytes \<Rightarrow> round result" where
  "flush_data_tile r keep =
     rbind (TileForIndex tileHeight (StoredHashIndex 0 (r_n r - 1))) (\<lambda>ti.
       (let ti = ti\<lparr>L := - 1\<rparr>; data = dataTile r
        in Ok (r\<lparr>r_edgeTiles := (r_edgeTiles r)(- 1 \<mapsto> \<lparr>Tile = ti, B = data\<rparr>),
                 uploads := uploads r @ [(Path ti, data)],
                 dataTile := keep\<rparr>)))"

text \<open>The body of the loop over the pending leaves.\<close>

definition sequence_leaf :: "(int \<rightharpoonup> tileWithBytes) \<Rightarrow> u64 \<Rightarrow> round \<Rightarrow> logEntry \<Rightarrow> round result" where
  "sequence_leaf ledge ts r leaf =
     rbind (merkleTreeLeaf leaf ts) (\<lambda>mtl.
       (case StoredHashes (r_n r) mtl (hashReader ledge (newHashes r)) of
          Error e \<Rightarrow> Error StoredHashesError
        | Panic \<Rightarrow> Panic
        | Ok hashes \<Rightarrow>
            rbind (tileLeaf leaf ts) (\<lambda>leafBytes.
              (let r = r\<lparr>newHashes := put_hashes (StoredHashIndex 0 (r_n r)) hashes (newHashes r),
                         dataTile := dataTile r @ leafBytes,
                         r_n := r_n r + 1\<rparr>
               in if r_n r mod tileWidth = 0 then flush_data_tile r [] else Ok r))))"

text \<open>
  The loops return the round as it stood at an error or panic: the uploads already
  handed to the errgroup still run (\<^verbatim>\<open>defer g.Wait()\<close>).
\<close>

fun sequence_leaves ::
  "(int \<rightharpoonup> tileWithBytes) \<Rightarrow> u64 \<Rightarrow> round \<Rightarrow> logEntry list \<Rightarrow> unit result \<times> round" where
  "sequence_leaves ledge ts r [] = (Ok (), r)"
| "sequence_leaves ledge ts r (leaf # leaves) =
     (case sequence_leaf ledge ts r leaf of
        Error e \<Rightarrow> (Error e, r)
      | Panic \<Rightarrow> (Panic, r)
      | Ok r' \<Rightarrow> sequence_leaves ledge ts r' leaves)"

fun hash_tiles ::
  "(int \<rightharpoonup> tileWithBytes) \<Rightarrow> round \<Rightarrow> tile list \<Rightarrow> unit result \<times> round" where
  "hash_tiles ledge r [] = (Ok (), r)"
| "hash_tiles ledge r (ti # tiles) =
     (case ReadTileData ti (hashReader ledge (newHashes r)) of
        Error e \<Rightarrow> (Error e, r)
      | Panic \<Rightarrow> (Panic, r)
      | Ok data \<Rightarrow>
          hash_tiles ledge
            (r\<lparr>r_edgeTiles :=
                  (case r_edgeTiles r (L ti) of
                     None \<Rightarrow> (r_edgeTiles r)(L ti \<mapsto> \<lparr>Tile = ti, B = data\<rparr>)
                   | Some t \<Rightarrow>
                       if N (Tile t) < N ti \<or> (N (Tile t) = N ti \<and> W (Tile t) < W ti)
                       then (r_edgeTiles r)(L ti \<mapsto> \<lparr>Tile = ti, B = data\<rparr>)
                       else r_edgeTiles r),
                uploads := uploads r @ [(Path ti, data)]\<rparr>)
            tiles)"

text \<open>
  The errgroup: every upload handed to it runs; those that succeed are persisted, and
  \<^verbatim>\<open>g.Wait()\<close> returns an error when one of them failed.
\<close>

fun run_uploads :: "env \<Rightarrow> (key \<times> bytes) list \<Rightarrow> store \<Rightarrow> store" where
  "run_uploads ev [] s = s"
| "run_uploads ev ((k, d) # ups) s =
     run_uploads ev ups (case Upload ev k d of None \<Rightarrow> s(k \<mapsto> d) | Some e \<Rightarrow> s)"

fun Wait :: "env \<Rightarrow> (key \<times> bytes) list \<Rightarrow> error option" where
  "Wait ev [] = None"
| "Wait ev ((k, d) # ups) = (case Upload ev k d of None \<Rightarrow> Wait ev ups | Some e \<Rightarrow> Some e)"

text \<open>
  The round's variables at its start: \<^verbatim>\<open>maps.Clone(l.edgeTiles)\<close>, the bytes of a partial
  data tile, an empty overlay and \<open>n = l.tree.N\<close>.

  \<open>build_round\<close> is everything of a round between the time check and the commit: it yields the round's
  variables with the new tree and the signed checkpoint, or how the round failed; and
  the round as it stood then.
\<close>

definition round_start :: "Log \<Rightarrow> round" where
  "round_start l =
     \<lparr>r_n = Tree_N (tree l), newHashes = Map.empty,
      dataTile = (case edgeTiles l (- 1) of
                    None \<Rightarrow> []
                  | Some t \<Rightarrow> if W (Tile t) < tileWidth then B t else []),
      r_edgeTiles = edgeTiles l, uploads = []\<rparr>"

definition build_round ::
  "env \<Rightarrow> Log \<Rightarrow> pool \<Rightarrow> u64 \<Rightarrow> (treeWithTimestamp \<times> bytes) result \<times> round" where
  "build_round ev l p ts =
     (case sequence_leaves (edgeTiles l) ts (round_start l) (pendingLeaves p) of
           (Error e, r) \<Rightarrow> (Error e, r)
         | (Panic, r) \<Rightarrow> (Panic, r)
         | (Ok u, r) \<Rightarrow>
      (case (if r_n r mod tileWidth \<noteq> 0 then flush_data_tile r (dataTile r) else Ok r) of
           Error e \<Rightarrow> (Error e, r)
         | Panic \<Rightarrow> (Panic, r)
         | Ok r \<Rightarrow>
      (case NewTiles tileHeight (Tree_N (tree l)) (r_n r) of
           Error e \<Rightarrow> (Error e, r)
         | Panic \<Rightarrow> (Panic, r)
         | Ok tiles \<Rightarrow>
      (case hash_tiles (edgeTiles l) r tiles of
           (Error e, r) \<Rightarrow> (Error e, r)
         | (Panic, r) \<Rightarrow> (Panic, r)
         | (Ok u, r) \<Rightarrow>
      (case Wait ev (uploads r) of
           Some e \<Rightarrow> (Error e, r)
         | None \<Rightarrow>
      (case TreeHash (r_n r) (hashReader (edgeTiles l) (newHashes r)) of
           Error e \<Rightarrow> (Error e, r)
         | Panic \<Rightarrow> (Panic, r)
         | Ok rootHash \<Rightarrow>
             (let t = \<lparr>Tree_N = r_n r, Tree_Hash = rootHash, Time = ts\<rparr>
              in (rbind (signTreeHead ev (name l) (logID l) (privKey l) t)
                    (\<lambda>cp. Ok (t, cp)), r))))))))"

definition sequencePool :: "env \<Rightarrow> Log \<Rightarrow> unit result \<times> Log" where
  "sequencePool ev l0 =
     (let a = currentPool l0;
          p = pools l0 a;
          l = l0\<lparr>currentPool := Suc a, pools := (pools l0)(Suc a := new_pool)\<rparr>;
          ts = timeNowUnixMilli ev
      in if sint ts \<le> sint (Time (tree l)) then (Error TimeDidNotProgress, l)
         else
           (case build_round ev l p ts of (res, r) \<Rightarrow>
              (let l = l\<lparr>backend := run_uploads ev (uploads r) (backend l)\<rparr>
               in case res of
                    Error e \<Rightarrow> (Error e, l)
                  | Panic \<Rightarrow> (Panic, l)
                  | Ok (t, cp) \<Rightarrow>
                      (case Upload ev KeySth cp of
                         Some e \<Rightarrow> (Error e, l)
                       | None \<Rightarrow>
                           (Ok (),
                            l\<lparr>backend := (backend l)(KeySth \<mapsto> cp),
                              pools := (pools l)(a := p\<lparr>timestamp := ts,
                                                        firstLeafIndex := Tree_N (tree l),
                                                        done_closed := True\<rparr>),
                              tree := t,
                              edgeTiles := r_edgeTiles r\<rparr>)))))"

section \<open>The wire formats, as the specification writes them\<close>

definition u16_prefixed :: "bytes \<Rightarrow> bytes" where
  "u16_prefixed v = be_bytes 2 (length v) @ v"

definition u24_prefixed :: "bytes \<Rightarrow> bytes" where
  "u24_prefixed v = be_bytes 3 (length v) @ v"

text \<open>
  \<^verbatim>\<open>TimestampedEntry\<close>: the timestamp, the entry type, the certificate (after the issuer
  key hash for a precertificate), and the empty extensions.
\<close>

definition timestamped_entry_format :: "logEntry \<Rightarrow> u64 \<Rightarrow> bytes" where
  "timestamped_entry_format e t =
     be_bytes 8 (unat t)
     @ (if \<not> isPrecert e
        then [0] @ u24_prefixed (cert e)
        else [1] @ hash_bytes (issuerKeyHash e) @ u24_prefixed (cert e))
     @ u16_prefixed []"

text \<open>
  \<^verbatim>\<open>DigitallySigned\<close>: hash algorithm 4 (SHA-256), signature algorithm 1 (RSA) or 3
  (ECDSA), and the signature.
\<close>

definition digitally_signed_format :: "pubkey \<Rightarrow> bytes \<Rightarrow> bytes" where
  "digitally_signed_format pk sig = [4, if pk = RSA then 1 else 3] @ u16_prefixed sig"

section \<open>Reading a published tree\<close>

text \<open>
  The level-0 hash a reader of the object storage finds for leaf \<open>i\<close> of the tree of size
  \<open>n\<close>: the hash at position \<open>i mod 1024\<close> of the level-0 tile of index \<open>i div 1024\<close>,
  which is the full tile when the tree holds all of its 1024 leaves and the partial tile
  of width \<open>n mod 1024\<close> otherwise.
\<close>

definition level0_tile :: "int \<Rightarrow> int \<Rightarrow> tile" where
  "level0_tile n i =
     \<lparr>H = tileHeight, L = 0, N = i div tileWidth,
      W = (if i div tileWidth < n div tileWidth then tileWidth else n mod tileWidth)\<rparr>"

definition hash_of_bytes :: "bytes \<Rightarrow> hash" where
  "hash_of_bytes b = word_of_nat (be_nat b)"

definition stored_leaf_hash :: "store \<Rightarrow> int \<Rightarrow> int \<Rightarrow> hash option" where
  "stored_leaf_hash s n i =
     (case s (Path (level0_tile n i)) of
        None \<Rightarrow> None
      | Some data \<Rightarrow>
          if HashSize * (i mod tileWidth) + HashSize \<le> int (length data)
          then Some (hash_of_bytes (take 32 (drop (32 * nat (i mod tileWidth)) data)))
          else None)"

text \<open>
  The uploads of a round that are data tiles (level \<open>-1\<close>).
\<close>

definition data_uploads :: "(key \<times> bytes) list \<Rightarrow> bool" where
  "data_uploads ups \<longleftrightarrow> (\<forall>(k, d) \<in> set ups. \<exists>t. k = Path t \<and> L t = - 1)"

section \<open>A sample key and environment\<close>

text \<open>
  Concrete inputs for evaluating the model: a signer whose signature is two bytes, and an
  environment whose uploads succeed and whose notes are the tree size, the root hash
  and the signature, one after the other.
\<close>

definition sample_key :: signer where
  "sample_key = \<lparr>Public = ECDSA, MarshalPKIX = Some [1, 2, 3], Sign = (\<lambda>d. Some [9, 9])\<rparr>"

definition sample_env :: "u64 \<Rightarrow> env" where
  "sample_env now =
     \<lparr>timeNowUnixMilli = now,
      Upload = (\<lambda>k d. None),
      NoteSign = (\<lambda>nm alg ky sig c. Ok (be_bytes 8 (nat (cp_N c)) @ hash_bytes (cp_Hash c) @ sig)),
      NoteOpen = (\<lambda>nm pub sth. Ok (sth, word_of_nat (be_nat (take 8 (drop 40 sth))))),
      ParseCheckpoint = (\<lambda>text. Ok \<lparr>Origin = ''log'', cp_N = int (be_nat (take 8 text)),
                                    cp_Hash = word_of_nat (be_nat (take 32 (drop 8 text))),
                                    Extension = []\<rparr>),
      TileHashReader = (\<lambda>s n h ids. Error FetchError)\<rparr>"

definition x509_entry :: "bytes \<Rightarrow> logEntry" where
  "x509_entry c = \<lparr>cert = c, isPrecert = False, issuerKeyHash = 0, preCertificate = [],
                    precertSigningCert = []\<rparr>"

text \<open>The log \<^verbatim>\<open>LoadLog\<close> returns for a checkpoint of size 0 signed at time 5.\<close>

definition sample_log :: Log where
  "sample_log =
     \<lparr>name = ''log'', logID = sha256 [1, 2, 3], privKey = sample_key,
      tree = \<lparr>Tree_N = 0, Tree_Hash = 0, Time = 5\<rparr>,
      edgeTiles = Map.empty, currentPool = 0, pools = (\<lambda>a. new_pool),
      backend = [KeySth \<mapsto> be_bytes 8 0 @ hash_bytes 0 @ be_bytes 8 5 @ [4, 3, 0, 2, 9, 9]]\<rparr>"

text \<open>
  The log after one round at time 20 that sequences the single entry with the
  certificate \<^verbatim>\<open>[0xAA]\<close>.
\<close>

definition sample_leaf :: bytes where
  "sample_leaf = [0, 0, 0, 0, 0, 0, 0, 0, 0, 20, 0, 0, 0, 1, 170, 0, 0]"

definition sample_log_1 :: Log where
  "sample_log_1 =
     \<lparr>name = ''log'', logID = sha256 [1, 2, 3], privKey = sample_key,
      tree = \<lparr>Tree_N = 1, Tree_Hash = RecordHash sample_leaf, Time = 20\<rparr>,
      edgeTiles =
        [- 1 \<mapsto> \<lparr>Tile = \<lparr>H = 10, L = - 1, N = 0, W = 1\<rparr>,
                  B = [0, 0, 0, 0, 0, 0, 0, 20, 0, 0, 0, 1, 170, 0, 0]\<rparr>,
         0 \<mapsto> \<lparr>Tile = \<lparr>H = 10, L = 0, N = 0, W = 1\<rparr>,
                B = hash_bytes (RecordHash sample_leaf)\<rparr>],
      currentPool = 1,
      pools = (\<lambda>a. new_pool)
        (Suc 0 := new_pool,
         0 := \<lparr>pendingLeaves = [x509_entry [170]], done_closed = True, firstLeafIndex = 0,
                timestamp = 20\<rparr>),
      backend =
        [KeyTile 10 (- 1) 0 (Some 1) \<mapsto> [0, 0, 0, 0, 0, 0, 0, 20, 0, 0, 0, 1, 170, 0, 0],
         KeyTile 10 0 0 (Some 1) \<mapsto> hash_bytes (RecordHash sample_leaf),
         KeySth \<mapsto> be_bytes 8 1 @ hash_bytes (RecordHash sample_leaf) @ be_bytes 8 20
                     @ [4, 3, 0, 2, 9, 9]]\<rparr>"

text \<open>
  The log \<^verbatim>\<open>LoadLog\<close> returns for a checkpoint of size 0 whose root hash is the SHA-256
  digest of the empty string, the hash RFC 6962 gives the empty tree.
\<close>

definition rfc_empty_log :: Log where
  "rfc_empty_log =
     \<lparr>name = ''log'', logID = sha256 [1, 2, 3], privKey = sample_key,
      tree = \<lparr>Tree_N = 0,
               Tree_Hash = 0xe3b0c44298fc1c149afbf4c8996fb92427ae41e4649b934ca495991b7852b855,
               Time = 5\<rparr>,
      edgeTiles = Map.empty, currentPool = 0, pools = (\<lambda>a. new_pool),
      backend =
        [KeySth \<mapsto> be_bytes 8 0
           @ hash_bytes 0xe3b0c44298fc1c149afbf4c8996fb92427ae41e4649b934ca495991b7852b855
           @ be_bytes 8 5 @ [4, 3, 0, 2, 9, 9]]\<rparr>"

text \<open>
  The log after one round, with three more leaves appended to its current pool, and the
  log a round at time 30 leaves.
\<close>

definition sample_log_3 :: Log where
  "sample_log_3 =
     foldl (\<lambda>l e. fst (addLeafToPool l e)) sample_log_1
       [x509_entry [1], x509_entry [2], x509_entry [3]]"

definition sample_log_4 :: Log where
  "sample_log_4 = snd (sequencePool (sample_env 30) sample_log_3)"

section \<open>Properties of the codec\<close>

subsection \<open>Big-endian integers\<close>

lemma length_be_bytes [simp]: "length (be_bytes k n) = k"
  by (induction k) auto

lemma be_bytes_numeral:
  "be_bytes (numeral k) n = word_of_nat (n div 256 ^ pred_numeral k) # be_bytes (pred_numeral k) n"
  by (simp add: numeral_eq_Suc)

lemma be_bytes_2: "be_bytes 2 n = [word_of_nat (n div 256), word_of_nat n]"
  by (simp add: numeral_2_eq_2)

lemma be_bytes_3:
  "be_bytes 3 n = [word_of_nat (n div 65536), word_of_nat (n div 256), word_of_nat n]"
  by (simp add: numeral_3_eq_3)

lemma be_nat_Nil [simp]: "be_nat [] = 0"
  by (simp add: be_nat_def)

lemma be_nat_snoc [simp]: "be_nat (xs @ [b]) = be_nat xs * 256 + unat b"
  by (simp add: be_nat_def)

lemma be_nat_append: "be_nat (xs @ ys) = be_nat xs * 256 ^ length ys + be_nat ys"
  by (induction ys rule: rev_induct) (simp_all add: algebra_simps flip: append_assoc)

lemma be_nat_Cons: "be_nat (b # xs) = unat b * 256 ^ length xs + be_nat xs"
  using be_nat_append [of "[b]" xs] by (simp add: be_nat_def)

lemma be_nat_be_bytes_mod: "be_nat (be_bytes k n) = n mod 256 ^ k"
proof (induction k)
  case 0
  then show ?case by simp
next
  case (Suc k)
  have "unat (word_of_nat (n div 256 ^ k) :: byte) = (n div 256 ^ k) mod 256"
    by (simp add: unat_of_nat)
  then have "be_nat (be_bytes (Suc k) n) = 256 ^ k * ((n div 256 ^ k) mod 256) + n mod 256 ^ k"
    by (simp add: be_nat_Cons Suc.IH)
  also have "\<dots> = n mod (256 ^ k * 256)"
    by (simp only: mod_mult2_eq)
  finally show ?case by (simp add: mult.commute)
qed

lemma be_nat_be_bytes: "n < 256 ^ k \<Longrightarrow> be_nat (be_bytes k n) = n"
  by (simp add: be_nat_be_bytes_mod)

lemma u64_roundtrip: "word_of_nat (be_nat (be_bytes 8 (unat (v :: u64)))) = v"
proof -
  have "unat v < 2 ^ 64" using unsigned_less [of v, where 'a = nat] by simp
  then have "unat v < 256 ^ 8" by simp
  then show ?thesis by (simp add: be_nat_be_bytes)
qed

subsection \<open>The builder and the reader\<close>

lemmas builder_defs = new_builder_def AddBytes_def AddUint8_def AddUint64_def
  addLengthPrefixed_def AddUint16LengthPrefixed_def AddUint24LengthPrefixed_def

lemma timestampedEntry_x509:
  "\<not> isPrecert e \<Longrightarrow> length (cert e) < 2 ^ 24 \<Longrightarrow>
   timestampedEntry e t (BOk r) =
     BOk (r @ be_bytes 8 (unat t) @ [0] @ be_bytes 3 (length (cert e)) @ cert e @ [0, 0])"
  by (simp add: timestampedEntry_def builder_defs be_bytes_2)

lemma timestampedEntry_precert:
  "isPrecert e \<Longrightarrow> length (cert e) < 2 ^ 24 \<Longrightarrow>
   timestampedEntry e t (BOk r) =
     BOk (r @ be_bytes 8 (unat t) @ [1] @ hash_bytes (issuerKeyHash e)
            @ be_bytes 3 (length (cert e)) @ cert e @ [0, 0])"
  by (simp add: timestampedEntry_def builder_defs be_bytes_2)

lemma timestampedEntry_overflow:
  "\<not> length (cert e) < 2 ^ 24 \<Longrightarrow> timestampedEntry e t (BOk r) = BErr"
  by (simp add: timestampedEntry_def builder_defs Let_def)

lemma read_bytes_append:
  "length a = n \<Longrightarrow> read_bytes n (a @ s) = Some (a, s)"
  by (simp add: read_bytes_def)

lemma read_bytes_Some:
  "read_bytes n s = Some (a, s') \<Longrightarrow> s = a @ s' \<and> length a = n \<and> a = take n s"
  by (auto simp: read_bytes_def split: if_splits)

lemma readLengthPrefixed_Some:
  "readLengthPrefixed k s = Some (c, s') \<Longrightarrow>
     \<exists>lenBytes. s = lenBytes @ c @ s' \<and> length lenBytes = k \<and> length c = be_nat lenBytes"
  by (auto simp: readLengthPrefixed_def split: option.splits prod.splits dest!: read_bytes_Some)

lemma readLengthPrefixed_append:
  "length c < 256 ^ k \<Longrightarrow> readLengthPrefixed k (be_bytes k (length c) @ c @ s) = Some (c, s)"
  by (simp add: readLengthPrefixed_def read_bytes_append be_nat_be_bytes)

lemma ReadUint64_append: "ReadUint64 (be_bytes 8 (unat t) @ s) = Some (t, s)"
  by (simp add: ReadUint64_def read_bytes_append u64_roundtrip)

lemma ReadUint8_Cons: "ReadUint8 (b # s) = Some (b, s)"
  by (simp add: ReadUint8_def read_bytes_def)

text \<open>
  Claim C10. Whenever \<^verbatim>\<open>ReadTileLeaf\<close> returns without error, the returned
  \<^verbatim>\<open>timestampedEntry\<close> followed by the returned rest is the input, the returned timestamp
  is the big-endian number of the input's first eight bytes, and the returned
  certificate lies inside the consumed prefix, after its first twelve bytes (timestamp,
  entry type and length).
\<close>

theorem ReadTileLeaf_prefix:
  assumes "ReadTileLeaf tile = Ok (te, c, ts, rest)"
  shows "te @ rest = tile \<and> ts = word_of_nat (be_nat (take 8 tile))
         \<and> (\<exists>pre post. te = pre @ c @ post \<and> length pre = 12)"
proof -
  from assms obtain s1 et s2 s3 ext where
    r1: "ReadUint64 tile = Some (ts, s1)" and
    r2: "ReadUint8 s1 = Some (et, s2)" and
    r3: "ReadUint24LengthPrefixed s2 = Some (c, s3)" and
    r4: "ReadUint16LengthPrefixed s3 = Some (ext, rest)" and
    te: "te = take (length tile - length rest) tile"
    by (auto simp: ReadTileLeaf_def split: option.splits prod.splits if_splits)
  from r1 obtain a where a: "tile = a @ s1" "length a = 8" "ts = word_of_nat (be_nat (take 8 tile))"
    by (auto simp: ReadUint64_def split: option.splits prod.splits dest!: read_bytes_Some)
  from r2 obtain b where b: "s1 = b @ s2" "length b = 1"
    by (auto simp: ReadUint8_def split: option.splits prod.splits dest!: read_bytes_Some)
  from r3 obtain l3 where l3: "s2 = l3 @ c @ s3" "length l3 = 3"
    unfolding ReadUint24LengthPrefixed_def by (auto dest!: readLengthPrefixed_Some)
  from r4 obtain l2 where l2: "s3 = l2 @ ext @ rest" "length l2 = 2"
    unfolding ReadUint16LengthPrefixed_def by (auto dest!: readLengthPrefixed_Some)
  have tile: "tile = (a @ b @ l3 @ c @ l2 @ ext) @ rest"
    using a b l3 l2 by simp
  have te': "te = a @ b @ l3 @ c @ l2 @ ext"
    unfolding te by (subst (2) tile, subst tile) simp
  have "te = (a @ b @ l3) @ c @ (l2 @ ext)" "length (a @ b @ l3) = 12"
    using te' a b l3 by simp_all
  then have "\<exists>pre post. te = pre @ c @ post \<and> length pre = 12" by blast
  with tile te' a show ?thesis by simp
qed

lemma tileLeaf_x509:
  "\<not> isPrecert e \<Longrightarrow> length (cert e) < 2 ^ 24 \<Longrightarrow>
   tileLeaf e t = Ok (be_bytes 8 (unat t) @ [0] @ be_bytes 3 (length (cert e)) @ cert e @ [0, 0])"
  using timestampedEntry_x509 [of e t "[]"]
  by (simp add: tileLeaf_def new_builder_def BytesOrPanic_def)

lemma tileLeaf_precert_Ok:
  assumes "isPrecert e" "tileLeaf e t = Ok bs"
  shows "\<exists>s. bs = be_bytes 8 (unat (t :: u64)) @ 1 # s"
proof (cases "length (cert e) < 2 ^ 24")
  case True
  show ?thesis
    using assms timestampedEntry_precert [OF assms(1) True, of t "[]"]
    by (auto simp: tileLeaf_def new_builder_def BytesOrPanic_def builder_defs
             split: if_splits builder.splits)
next
  case False
  show ?thesis
    using assms timestampedEntry_overflow [OF False, of t "[]"]
    by (simp add: tileLeaf_def new_builder_def BytesOrPanic_def builder_defs)
qed

lemma ReadTileLeaf_precert_Panic: "ReadTileLeaf (be_bytes 8 (unat (t :: u64)) @ 1 # s) = Panic"
  by (simp add: ReadTileLeaf_def ReadUint64_append ReadUint8_Cons)

lemma tileLeaf_roundtrip_precert_panics:
  "isPrecert e \<Longrightarrow> tileLeaf e t = Ok bs \<Longrightarrow> ReadTileLeaf bs = Panic"
  using tileLeaf_precert_Ok ReadTileLeaf_precert_Panic by blast

lemma take_consumed: "take (length (x @ r) - length r) (x @ r) = x"
  by simp

lemma ReadTileLeaf_x509_format:
  fixes t :: u64
  assumes "length c < 2 ^ 24"
  shows "ReadTileLeaf (be_bytes 8 (unat t) @ [0] @ be_bytes 3 (length c) @ c @ [0, 0] @ rest)
         = Ok (be_bytes 8 (unat t) @ [0] @ be_bytes 3 (length c) @ c @ [0, 0], c, t, rest)"
proof -
  define x where "x = be_bytes 8 (unat t) @ [0] @ be_bytes 3 (length c) @ c @ [0, 0]"
  have tile: "be_bytes 8 (unat t) @ [0] @ be_bytes 3 (length c) @ c @ [0, 0] @ rest = x @ rest"
    by (simp add: x_def)
  have 1: "ReadUint24LengthPrefixed (be_bytes 3 (length c) @ c @ [0, 0] @ rest) = Some (c, [0, 0] @ rest)"
    unfolding ReadUint24LengthPrefixed_def using assms by (intro readLengthPrefixed_append) simp
  have 2: "ReadUint16LengthPrefixed ([0, 0] @ rest) = Some ([], rest)"
    using readLengthPrefixed_append [of "[]" 2 rest]
    by (simp add: ReadUint16LengthPrefixed_def be_bytes_2)
  have "ReadTileLeaf (be_bytes 8 (unat t) @ [0] @ be_bytes 3 (length c) @ c @ [0, 0] @ rest)
        = Ok (take (length (x @ rest) - length rest) (x @ rest), c, t, rest)"
    unfolding tile [symmetric] using 1 2
    by (simp add: ReadTileLeaf_def ReadUint64_append ReadUint8_Cons)
  then show ?thesis
    unfolding take_consumed by (simp add: x_def)
qed

lemma tileLeaf_roundtrip_x509:
  assumes "\<not> isPrecert e" "length (cert e) < 2 ^ 24"
  shows "\<exists>bs. tileLeaf e t = Ok bs \<and> ReadTileLeaf bs = Ok (bs, cert e, t, [])"
  using tileLeaf_x509 [OF assms, of t] ReadTileLeaf_x509_format [OF assms(2), of t "[]"]
  by simp

theorem ReadTileLeaf_prefix_witness:
  "[0, 0, 0, 0, 0, 0, 1, 2, 0, 0, 0, 3, 1, 2, 3, 0, 1, 7] @ [9, 9]
     = [0, 0, 0, 0, 0, 0, 1, 2, 0, 0, 0, 3, 1, 2, 3, 0, 1, 7, 9, 9 :: byte]
   \<and> (258 :: u64) = word_of_nat (be_nat (take 8 [0, 0, 0, 0, 0, 0, 1, 2, 0, 0, 0, 3, 1, 2, 3, 0, 1, 7, 9, 9]))
   \<and> (\<exists>pre post. [0, 0, 0, 0, 0, 0, 1, 2, 0, 0, 0, 3, 1, 2, 3, 0, 1, 7] = pre @ [1, 2, 3 :: byte] @ post
         \<and> length pre = 12)"
proof -
  have "ReadTileLeaf [0, 0, 0, 0, 0, 0, 1, 2, 0, 0, 0, 3, 1, 2, 3, 0, 1, 7, 9, 9]
        = Ok ([0, 0, 0, 0, 0, 0, 1, 2, 0, 0, 0, 3, 1, 2, 3, 0, 1, 7], [1, 2, 3], 258, [9, 9])"
    by (simp add: ReadTileLeaf_def ReadUint64_def ReadUint8_def ReadUint24LengthPrefixed_def
          ReadUint16LengthPrefixed_def readLengthPrefixed_def read_bytes_def be_nat_def)
  from ReadTileLeaf_prefix [OF this] show ?thesis .
qed

subsection \<open>The Merkle tree leaf\<close>

lemma merkleTreeLeaf_overflow:
  "\<not> length (cert e) < 2 ^ 24 \<Longrightarrow> merkleTreeLeaf e t = Panic"
  by (simp add: merkleTreeLeaf_def new_builder_def AddUint8_def AddBytes_def
        timestampedEntry_overflow BytesOrPanic_def)

text \<open>
  Claim C6, amended. For every entry whose certificate is shorter than \<open>2^24\<close> bytes and
  every timestamp, \<^verbatim>\<open>merkleTreeLeaf\<close> returns version 0, leaf type 0 and the
  \<^verbatim>\<open>TimestampedEntry\<close> of the specification, whose issuer key hash takes 32 bytes; for
  a longer certificate it panics.
\<close>

theorem merkleTreeLeaf_wire_format:
  "merkleTreeLeaf e t =
     (if length (cert e) < 2 ^ 24
      then Ok ([0, 0] @ timestamped_entry_format e t)
      else Panic)
   \<and> length (hash_bytes (issuerKeyHash e)) = 32"
  by (cases "isPrecert e"; cases "length (cert e) < 2 ^ 24")
     (simp_all add: merkleTreeLeaf_def timestamped_entry_format_def u24_prefixed_def
        u16_prefixed_def new_builder_def AddUint8_def AddBytes_def hash_bytes_def be_bytes_2
        timestampedEntry_x509 timestampedEntry_precert timestampedEntry_overflow BytesOrPanic_def)

theorem merkleTreeLeaf_wire_format_witness:
  "merkleTreeLeaf \<lparr>cert = [1, 2, 3], isPrecert = True, issuerKeyHash = 5,
      preCertificate = [], precertSigningCert = []\<rparr> 258
   = Ok ([0, 0] @ [0, 0, 0, 0, 0, 0, 1, 2] @ [1]
         @ [0, 0, 0, 0, 0, 0, 0, 0, 0, 0, 0, 0, 0, 0, 0, 0,
            0, 0, 0, 0, 0, 0, 0, 0, 0, 0, 0, 0, 0, 0, 0, 5]
         @ [0, 0, 3] @ [1, 2, 3] @ [0, 0])"
  using merkleTreeLeaf_wire_format [of "\<lparr>cert = [1, 2, 3], isPrecert = True, issuerKeyHash = 5,
      preCertificate = [], precertSigningCert = []\<rparr>" 258]
  by (simp add: timestamped_entry_format_def u24_prefixed_def u16_prefixed_def hash_bytes_def
        be_bytes_numeral)

theorem merkleTreeLeaf_long_cert_panics:
  "merkleTreeLeaf \<lparr>cert = replicate 16777216 0, isPrecert = False, issuerKeyHash = 0,
      preCertificate = [], precertSigningCert = []\<rparr> 0 = Panic"
proof (rule merkleTreeLeaf_overflow)
  show "\<not> length (cert \<lparr>cert = replicate 16777216 (0 :: byte), isPrecert = False,
      issuerKeyHash = 0, preCertificate = [], precertSigningCert = []\<rparr>) < 2 ^ 24"
    by (simp only: logEntry.simps length_replicate) simp
qed

subsection \<open>The tile leaf\<close>

text \<open>
  Claim C4, at a precertificate entry. \<^verbatim>\<open>tileLeaf\<close> serialises the entry, and
  \<^verbatim>\<open>ReadTileLeaf\<close> panics on the result: its \<^verbatim>\<open>precert_entry\<close> case is
  \<^verbatim>\<open>panic("unimplemented")\<close>.
\<close>

theorem tileLeaf_precert_not_read_back:
  "tileLeaf \<lparr>cert = [1, 2, 3], isPrecert = True, issuerKeyHash = 5,
      preCertificate = [7], precertSigningCert = [8, 9]\<rparr> 258
   = Ok ([0, 0, 0, 0, 0, 0, 1, 2] @ [1]
         @ [0, 0, 0, 0, 0, 0, 0, 0, 0, 0, 0, 0, 0, 0, 0, 0,
            0, 0, 0, 0, 0, 0, 0, 0, 0, 0, 0, 0, 0, 0, 0, 5]
         @ [0, 0, 3, 1, 2, 3] @ [0, 0] @ [0, 0, 1, 7] @ [0, 0, 2, 8, 9])
   \<and> ReadTileLeaf ([0, 0, 0, 0, 0, 0, 1, 2] @ [1]
         @ [0, 0, 0, 0, 0, 0, 0, 0, 0, 0, 0, 0, 0, 0, 0, 0,
            0, 0, 0, 0, 0, 0, 0, 0, 0, 0, 0, 0, 0, 0, 0, 5]
         @ [0, 0, 3, 1, 2, 3] @ [0, 0] @ [0, 0, 1, 7] @ [0, 0, 2, 8, 9]) = Panic"
proof
  show "tileLeaf \<lparr>cert = [1, 2, 3], isPrecert = True, issuerKeyHash = 5,
      preCertificate = [7], precertSigningCert = [8, 9]\<rparr> 258
   = Ok ([0, 0, 0, 0, 0, 0, 1, 2] @ [1]
         @ [0, 0, 0, 0, 0, 0, 0, 0, 0, 0, 0, 0, 0, 0, 0, 0,
            0, 0, 0, 0, 0, 0, 0, 0, 0, 0, 0, 0, 0, 0, 0, 5]
         @ [0, 0, 3, 1, 2, 3] @ [0, 0] @ [0, 0, 1, 7] @ [0, 0, 2, 8, 9])"
    by (simp add: tileLeaf_def timestampedEntry_def builder_defs BytesOrPanic_def hash_bytes_def
          be_bytes_numeral)
next
  show "ReadTileLeaf ([0, 0, 0, 0, 0, 0, 1, 2] @ [1]
         @ [0, 0, 0, 0, 0, 0, 0, 0, 0, 0, 0, 0, 0, 0, 0, 0,
            0, 0, 0, 0, 0, 0, 0, 0, 0, 0, 0, 0, 0, 0, 0, 5]
         @ [0, 0, 3, 1, 2, 3] @ [0, 0] @ [0, 0, 1, 7] @ [0, 0, 2, 8, 9]) = Panic"
    by (simp add: ReadTileLeaf_def ReadUint64_def ReadUint8_def read_bytes_def)
qed

section \<open>Properties of signing and bootstrap\<close>

subsection \<open>Evaluating SHA-256\<close>

lemma schedule_numeral:
  "schedule (numeral k) w =
     hd w # schedule (pred_numeral k)
       (tl w @ [add32 (add32 (add32 (ssig1 (w ! 14)) (w ! 9)) (ssig0 (w ! 1))) (w ! 0)])"
  by (simp add: numeral_eq_Suc)

lemma chunks_numeral:
  "chunks (numeral k) n xs = take n xs # chunks (pred_numeral k) n (drop n xs)"
  by (simp add: numeral_eq_Suc)

lemma replicate_numeral: "replicate (numeral k) x = x # replicate (pred_numeral k) x"
  by (simp add: numeral_eq_Suc)

lemmas sha_eval = sha256_def sha_pad_def compress_def chunks_numeral schedule_numeral
  replicate_numeral sha256_K_def sha256_init_def be_nat_def ssig0_def ssig1_def bsig0_def
  bsig1_def rotr_def add32_def Ch_def Maj_def not32_def

text \<open>The digest of the empty string: \<^verbatim>\<open>e3b0c442 98fc1c14 ... 7852b855\<close>.\<close>

lemma sha256_empty:
  "sha256 [] = 0xe3b0c44298fc1c149afbf4c8996fb92427ae41e4649b934ca495991b7852b855"
  by (simp add: sha_eval)

subsection \<open>\<^verbatim>\<open>digitallySign\<close>\<close>

lemma rbind_Ok_iff: "rbind m f = Ok b \<longleftrightarrow> (\<exists>a. m = Ok a \<and> f a = Ok b)"
  by (cases m) auto

lemma Bytes_prefixed:
  "Bytes (AddUint16LengthPrefixed (AddBytes sig) (BOk r)) =
     (if length sig < 2 ^ 16 then Ok (r @ u16_prefixed sig) else Error BuilderError)"
  by (simp add: builder_defs Bytes_def u16_prefixed_def)

text \<open>
  Claim C7, amended. When the signer returns a signature shorter than \<open>2^16\<close> bytes for
  the SHA-256 digest of the message, \<^verbatim>\<open>digitallySign\<close> returns the byte 4, the byte 1
  for an RSA public key or 3 for an ECDSA one, and the length-prefixed signature; a
  longer signature gives the builder's error. A signer's error is returned. For a
  public key that is neither RSA nor ECDSA it returns an error.
\<close>

theorem digitallySign_encoding:
  "(Public k = OtherKey \<longrightarrow> (\<exists>e. digitallySign k msg = Error e))
   \<and> (Sign k (hash_bytes (sha256 msg)) = None \<longrightarrow> digitallySign k msg = Error SignerError)
   \<and> (\<forall>sig. Sign k (hash_bytes (sha256 msg)) = Some sig \<and> Public k \<noteq> OtherKey \<longrightarrow>
          digitallySign k msg =
            (if length sig < 2 ^ 16 then Ok (digitally_signed_format (Public k) sig)
             else Error BuilderError))"
  by (cases "Public k"; cases "Sign k (hash_bytes (sha256 msg))")
     (simp_all add: digitallySign_def Bytes_prefixed digitally_signed_format_def
        new_builder_def AddUint8_def AddBytes_def)

theorem digitallySign_encoding_witness:
  "digitallySign \<lparr>Public = RSA, MarshalPKIX = None, Sign = (\<lambda>d. Some [7, 7, 7])\<rparr> [1, 2]
     = Ok [4, 1, 0, 3, 7, 7, 7]
   \<and> digitallySign \<lparr>Public = ECDSA, MarshalPKIX = None, Sign = (\<lambda>d. Some [7, 7, 7])\<rparr> [1, 2]
     = Ok [4, 3, 0, 3, 7, 7, 7]
   \<and> (\<exists>e. digitallySign \<lparr>Public = OtherKey, MarshalPKIX = None, Sign = (\<lambda>d. Some [7, 7, 7])\<rparr> [1, 2]
     = Error e)
   \<and> digitallySign \<lparr>Public = RSA, MarshalPKIX = None, Sign = (\<lambda>d. None)\<rparr> [1, 2]
     = Error SignerError"
  using digitallySign_encoding [of "\<lparr>Public = RSA, MarshalPKIX = None, Sign = (\<lambda>d. Some [7, 7, 7])\<rparr>" "[1, 2]"]
    digitallySign_encoding [of "\<lparr>Public = ECDSA, MarshalPKIX = None, Sign = (\<lambda>d. Some [7, 7, 7])\<rparr>" "[1, 2]"]
    digitallySign_encoding [of "\<lparr>Public = OtherKey, MarshalPKIX = None, Sign = (\<lambda>d. Some [7, 7, 7])\<rparr>" "[1, 2]"]
    digitallySign_encoding [of "\<lparr>Public = RSA, MarshalPKIX = None, Sign = (\<lambda>d. None)\<rparr>" "[1, 2]"]
  by (simp add: digitally_signed_format_def u16_prefixed_def be_bytes_2)

theorem digitallySign_long_signature:
  "digitallySign \<lparr>Public = RSA, MarshalPKIX = None, Sign = (\<lambda>d. Some (replicate 65536 0))\<rparr> []
     = Error BuilderError"
proof -
  have "\<not> length (replicate 65536 (0 :: byte)) < 2 ^ 16"
    by (simp only: length_replicate) simp
  then show ?thesis
    by (simp add: digitallySign_def Bytes_prefixed new_builder_def AddUint8_def AddBytes_def)
qed

subsection \<open>\<^verbatim>\<open>CreateLog\<close>\<close>

lemma signTreeHead_Ok_iff:
  "signTreeHead ev nm lid k t = Ok cp \<longleftrightarrow>
     (\<exists>ths. digitallySign k (SerializeSTHSignatureInput t) = Ok ths
        \<and> NoteSign ev nm 5 (hash_bytes lid) (be_bytes 8 (unat (Time t)) @ ths)
             \<lparr>Origin = nm, cp_N = Tree_N t, cp_Hash = Tree_Hash t, Extension = []\<rparr> = Ok cp)"
  by (simp add: signTreeHead_def rbind_Ok_iff Bytes_def new_builder_def AddUint64_def AddBytes_def)

text \<open>
  Claim C5, amended. \<^verbatim>\<open>CreateLog\<close> succeeds exactly when the key marshals, the tree head
  of size 0, the current time and the all-zero root hash is signed, and the upload under
  \<^verbatim>\<open>"sth"\<close> succeeds; what it uploads is the checkpoint of that tree: size 0 and root
  hash zero in the note, the current time in the signature. The root hash is the zero
  value of \<^verbatim>\<open>tlog.Tree{}\<close>, not the SHA-256 digest of the empty string.
\<close>

theorem CreateLog_uploads_empty_tree:
  "CreateLog ev nm k s = (Ok (), s') \<longleftrightarrow>
     (\<exists>pk ths cp.
        MarshalPKIX k = Some pk
        \<and> digitallySign k
             ([0, 1] @ be_bytes 8 (unat (timeNowUnixMilli ev)) @ be_bytes 8 0 @ hash_bytes 0) = Ok ths
        \<and> NoteSign ev nm 5 (hash_bytes (sha256 pk)) (be_bytes 8 (unat (timeNowUnixMilli ev)) @ ths)
             \<lparr>Origin = nm, cp_N = 0, cp_Hash = 0, Extension = []\<rparr> = Ok cp
        \<and> Upload ev KeySth cp = None
        \<and> s' = s(KeySth \<mapsto> cp))"
proof (cases "MarshalPKIX k")
  case None
  then show ?thesis by (simp add: CreateLog_def)
next
  case (Some pk)
  let ?t = "\<lparr>Tree_N = 0, Tree_Hash = 0, Time = timeNowUnixMilli ev\<rparr>"
  have ser: "SerializeSTHSignatureInput ?t
      = [0, 1] @ be_bytes 8 (unat (timeNowUnixMilli ev)) @ be_bytes 8 0 @ hash_bytes 0"
    by (simp add: SerializeSTHSignatureInput_def)
  show ?thesis
  proof (cases "signTreeHead ev nm (sha256 pk) k ?t")
    case (Ok cp)
    with Some show ?thesis
      using signTreeHead_Ok_iff [of ev nm "sha256 pk" k ?t cp]
      by (cases "Upload ev KeySth cp") (auto simp: CreateLog_def ser)
  next
    case (Error e)
    with Some show ?thesis
      using signTreeHead_Ok_iff [of ev nm "sha256 pk" k ?t]
      by (auto simp: CreateLog_def ser)
  next
    case Panic
    with Some show ?thesis
      using signTreeHead_Ok_iff [of ev nm "sha256 pk" k ?t]
      by (auto simp: CreateLog_def ser)
  qed
qed

lemma CreateLog_sample:
  "CreateLog (sample_env 5) ''log'' sample_key Map.empty
     = (Ok (), [KeySth \<mapsto> be_bytes 8 0 @ hash_bytes 0 @ be_bytes 8 5 @ [4, 3, 0, 2, 9, 9]])"
  by (simp add: CreateLog_def sample_env_def sample_key_def signTreeHead_def digitallySign_def
        builder_defs Bytes_def be_bytes_2)

theorem CreateLog_uploads_empty_tree_witness:
  "\<exists>pk ths cp.
     MarshalPKIX sample_key = Some pk
     \<and> digitallySign sample_key
          ([0, 1] @ be_bytes 8 (unat (timeNowUnixMilli (sample_env 5))) @ be_bytes 8 0 @ hash_bytes 0)
        = Ok ths
     \<and> NoteSign (sample_env 5) ''log'' 5 (hash_bytes (sha256 pk))
          (be_bytes 8 (unat (timeNowUnixMilli (sample_env 5))) @ ths)
          \<lparr>Origin = ''log'', cp_N = 0, cp_Hash = 0, Extension = []\<rparr> = Ok cp
     \<and> Upload (sample_env 5) KeySth cp = None
     \<and> [KeySth \<mapsto> be_bytes 8 0 @ hash_bytes 0 @ be_bytes 8 5 @ [4, 3, 0, 2, 9, 9]]
        = Map.empty(KeySth \<mapsto> cp)"
  using CreateLog_uploads_empty_tree [THEN iffD1, OF CreateLog_sample] .

text \<open>
  The checkpoint \<^verbatim>\<open>CreateLog\<close> uploads carries the root hash zero, and the SHA-256 digest
  of the empty string is another value.
\<close>

theorem CreateLog_root_hash_not_sha256_empty:
  "CreateLog (sample_env 5) ''log'' sample_key Map.empty
     = (Ok (), [KeySth \<mapsto> be_bytes 8 0 @ hash_bytes 0 @ be_bytes 8 5 @ [4, 3, 0, 2, 9, 9]])
   \<and> hash_bytes (sha256 []) \<noteq> hash_bytes 0"
proof
  show "CreateLog (sample_env 5) ''log'' sample_key Map.empty
     = (Ok (), [KeySth \<mapsto> be_bytes 8 0 @ hash_bytes 0 @ be_bytes 8 5 @ [4, 3, 0, 2, 9, 9]])"
    by (rule CreateLog_sample)
  show "hash_bytes (sha256 []) \<noteq> hash_bytes 0"
    by (simp add: sha256_empty hash_bytes_def be_bytes_numeral)
qed

subsection \<open>\<^verbatim>\<open>LoadLog\<close>\<close>

text \<open>
  Claim C8. With the checkpoint fetched, verified and parsed, \<^verbatim>\<open>LoadLog\<close> returns an error
  when the origin is not the configured name, or the current time is before the STH
  timestamp, or the checkpoint has an extension; and when these checks pass and the size
  is 0 it returns a log of size 0 with the checkpoint's hash and timestamp, no edge tile
  and an empty pool.
\<close>

theorem LoadLog_validation:
  assumes "MarshalPKIX k = Some pk" and "s KeySth = Some sth"
    and "NoteOpen ev nm (Public k) sth = Ok (text, ts)"
    and "ParseCheckpoint ev text = Ok c"
  shows "(Origin c \<noteq> nm \<or> sint (timeNowUnixMilli ev) < sint ts \<or> Extension c \<noteq> []
            \<longrightarrow> (\<exists>e. LoadLog ev nm k s = Error e))
       \<and> (Origin c = nm \<and> \<not> sint (timeNowUnixMilli ev) < sint ts \<and> Extension c = []
            \<and> cp_N c = 0
            \<longrightarrow> LoadLog ev nm k s =
                  Ok \<lparr>name = nm, logID = sha256 pk, privKey = k,
                      tree = \<lparr>Tree_N = 0, Tree_Hash = cp_Hash c, Time = ts\<rparr>,
                      edgeTiles = Map.empty, currentPool = 0,
                      pools = (\<lambda>a. new_pool), backend = s\<rparr>)"
  using assms by (auto simp: LoadLog_def Fetch_def)

lemma LoadLog_Ok_checks:
  assumes "LoadLog ev nm k s = Ok l"
  shows "\<exists>pk sth text ts c.
           MarshalPKIX k = Some pk \<and> s KeySth = Some sth
           \<and> NoteOpen ev nm (Public k) sth = Ok (text, ts) \<and> ParseCheckpoint ev text = Ok c
           \<and> Origin c = nm \<and> \<not> sint (timeNowUnixMilli ev) < sint ts \<and> Extension c = []"
  using assms
  by (auto simp: LoadLog_def Fetch_def rbind_Ok_iff split: option.splits if_splits)

lemma LoadLog_sample_store:
  "NoteOpen (sample_env 10) ''log'' (Public sample_key)
      (be_bytes 8 0 @ hash_bytes 0 @ be_bytes 8 5 @ [4, 3, 0, 2, 9, 9])
     = Ok (be_bytes 8 0 @ hash_bytes 0 @ be_bytes 8 5 @ [4, 3, 0, 2, 9, 9], 5)
   \<and> ParseCheckpoint (sample_env 10) (be_bytes 8 0 @ hash_bytes 0 @ be_bytes 8 5 @ [4, 3, 0, 2, 9, 9])
     = Ok \<lparr>Origin = ''log'', cp_N = 0, cp_Hash = 0, Extension = []\<rparr>"
  by (simp add: sample_env_def hash_bytes_def be_bytes_numeral be_nat_def)

theorem LoadLog_validation_witness:
  "(\<exists>e. LoadLog (sample_env 10) ''other'' sample_key
           [KeySth \<mapsto> be_bytes 8 0 @ hash_bytes 0 @ be_bytes 8 5 @ [4, 3, 0, 2, 9, 9]] = Error e)
   \<and> (\<exists>e. LoadLog (sample_env 4) ''log'' sample_key
           [KeySth \<mapsto> be_bytes 8 0 @ hash_bytes 0 @ be_bytes 8 5 @ [4, 3, 0, 2, 9, 9]] = Error e)
   \<and> LoadLog (sample_env 10) ''log'' sample_key
        [KeySth \<mapsto> be_bytes 8 0 @ hash_bytes 0 @ be_bytes 8 5 @ [4, 3, 0, 2, 9, 9]]
      = Ok \<lparr>name = ''log'', logID = sha256 [1, 2, 3], privKey = sample_key,
            tree = \<lparr>Tree_N = 0, Tree_Hash = 0, Time = 5\<rparr>,
            edgeTiles = Map.empty, currentPool = 0, pools = (\<lambda>a. new_pool),
            backend = [KeySth \<mapsto> be_bytes 8 0 @ hash_bytes 0 @ be_bytes 8 5 @ [4, 3, 0, 2, 9, 9]]\<rparr>"
proof -
  let ?cp = "be_bytes 8 0 @ hash_bytes 0 @ be_bytes 8 5 @ [4, 3, 0, 2, 9, 9 :: byte]"
  let ?c = "\<lparr>Origin = ''log'', cp_N = 0, cp_Hash = 0, Extension = []\<rparr>"
  have k: "MarshalPKIX sample_key = Some [1, 2, 3]" by (simp add: sample_key_def)
  have s: "[KeySth \<mapsto> ?cp] KeySth = Some ?cp" by simp
  have o: "\<And>now nm. NoteOpen (sample_env now) nm (Public sample_key) ?cp = Ok (?cp, 5)"
    using LoadLog_sample_store by (simp add: sample_env_def)
  have p: "\<And>now. ParseCheckpoint (sample_env now) ?cp = Ok ?c"
    using LoadLog_sample_store by (simp add: sample_env_def)
  have t: "\<And>now. timeNowUnixMilli (sample_env now) = now" by (simp add: sample_env_def)
  show ?thesis
    using LoadLog_validation [where s = "[KeySth \<mapsto> ?cp]" and ev = "sample_env 10"
          and nm = "''other''", OF k s o p]
      LoadLog_validation [where s = "[KeySth \<mapsto> ?cp]" and ev = "sample_env 4"
          and nm = "''log''", OF k s o p]
      LoadLog_validation [where s = "[KeySth \<mapsto> ?cp]" and ev = "sample_env 10"
          and nm = "''log''", OF k s o p]
    by (simp add: t)
qed

section \<open>Properties of the storage indexes and tiles\<close>

lemma sum_halves_pos: "0 < n \<Longrightarrow> sum_halves i n = sum_halves (i + n) (n div 2)"
  by (subst sum_halves.simps) simp

lemma sum_halves_nonpos: "n \<le> 0 \<Longrightarrow> sum_halves i n = i"
  by (subst sum_halves.simps) simp

lemma sum_halves_acc: "sum_halves i n = i + sum_halves 0 n"
proof (induction "nat n" arbitrary: n i rule: less_induct)
  case less
  show ?case
  proof (cases "0 < n")
    case True
    then have lt: "nat (n div 2) < nat n" by simp
    have "sum_halves i n = i + n + sum_halves 0 (n div 2)"
      using less [OF lt, of "i + n"] by (simp only: sum_halves_pos [OF True])
    moreover have "sum_halves 0 n = n + sum_halves 0 (n div 2)"
      using less [OF lt, of "0 + n"] by (simp add: sum_halves_pos [OF True])
    ultimately show ?thesis by simp
  next
    case False
    then show ?thesis by (simp add: sum_halves_nonpos)
  qed
qed

text \<open>The storage index of a level-0 hash.\<close>

lemma SHI0: "StoredHashIndex 0 n = sum_halves 0 n"
  by (simp add: StoredHashIndex_def)

lemma SHI0_pos: "0 < n \<Longrightarrow> StoredHashIndex 0 n = n + StoredHashIndex 0 (n div 2)"
  using sum_halves_acc [of "0 + n" "n div 2"] by (simp add: SHI0 sum_halves_pos)

lemma SHI0_nonpos: "n \<le> 0 \<Longrightarrow> StoredHashIndex 0 n = 0"
  by (simp add: SHI0 sum_halves_nonpos)

lemma SHI0_bounds: "0 \<le> n \<Longrightarrow> n \<le> StoredHashIndex 0 n \<and> StoredHashIndex 0 n \<le> 2 * n"
proof (induction "nat n" arbitrary: n rule: less_induct)
  case less
  show ?case
  proof (cases "0 < n")
    case True
    then have "nat (n div 2) < nat n" "0 \<le> n div 2" by simp_all
    moreover have "2 * (n div 2) \<le> n" by presburger
    ultimately show ?thesis
      using less(1) [of "n div 2"] True by (simp add: SHI0_pos)
  next
    case False
    with less(2) show ?thesis by (simp add: SHI0_nonpos)
  qed
qed

lemma TZ_odd: "0 < x \<Longrightarrow> odd x \<Longrightarrow> TrailingZeros64 x = 0"
  by (subst TrailingZeros64.simps) simp

lemma TZ_even: "0 < x \<Longrightarrow> even x \<Longrightarrow> TrailingZeros64 x = 1 + TrailingZeros64 (x div 2)"
  by (subst TrailingZeros64.simps) simp

text \<open>Each record \<open>n\<close> adds \<open>1 + TrailingZeros64 (n + 1)\<close> stored hashes.\<close>

lemma SHI0_step:
  "0 \<le> n \<Longrightarrow> StoredHashIndex 0 (n + 1) = StoredHashIndex 0 n + 1 + TrailingZeros64 (n + 1)"
proof (induction "nat n" arbitrary: n rule: less_induct)
  case less
  have pos: "0 < n + 1" using less(2) by simp
  show ?case
  proof (cases "even n")
    case True
    then have odd: "odd (n + 1)" by simp
    have d: "(n + 1) div 2 = n div 2" using True by presburger
    show ?thesis
    proof (cases "n = 0")
      case True
      then show ?thesis
        using SHI0_pos [of 1] by (simp add: SHI0_nonpos TZ_odd)
    next
      case False
      with less(2) have "0 < n" by simp
      then show ?thesis
        using SHI0_pos [OF pos] SHI0_pos [of n] d TZ_odd [OF pos odd] by simp
    qed
  next
    case False
    then have ev: "even (n + 1)" by simp
    from False less(2) have n: "0 < n" by (cases "n = 0") auto
    define m where "m = n div 2"
    have m: "0 \<le> m" "nat m < nat n" "(n + 1) div 2 = m + 1"
      using n False by (simp_all add: m_def)
    from less(1) [OF m(2) m(1)]
    have ih: "StoredHashIndex 0 (m + 1) = StoredHashIndex 0 m + 1 + TrailingZeros64 (m + 1)" .
    have "StoredHashIndex 0 (n + 1) = n + 1 + StoredHashIndex 0 (m + 1)"
      using SHI0_pos [OF pos] m(3) by simp
    moreover have "StoredHashIndex 0 n = n + StoredHashIndex 0 m"
      using SHI0_pos [OF n] by (simp add: m_def)
    moreover have "TrailingZeros64 (n + 1) = 1 + TrailingZeros64 (m + 1)"
      using TZ_even [OF pos ev] m(3) by simp
    ultimately show ?thesis using ih by simp
  qed
qed

lemma SHI0_Suc_less: "0 \<le> n \<Longrightarrow> StoredHashIndex 0 n < StoredHashIndex 0 (n + 1)"
  using SHI0_step [of n] TrailingZeros64_nonneg [of "n + 1"] by simp

lemma SHI0_mono: "0 \<le> n \<Longrightarrow> n \<le> m \<Longrightarrow> StoredHashIndex 0 n \<le> StoredHashIndex 0 m"
proof (induction "nat (m - n)" arbitrary: m)
  case 0
  then show ?case by simp
next
  case (Suc k)
  then have "k = nat ((m - 1) - n)" "n \<le> m - 1" "0 \<le> m - 1" by simp_all
  from Suc(1) [OF this(1) Suc(3) this(2)] SHI0_Suc_less [OF this(3)]
  show ?case by simp
qed

lemma SHI0_strict_mono: "0 \<le> n \<Longrightarrow> n < m \<Longrightarrow> StoredHashIndex 0 n < StoredHashIndex 0 m"
  using SHI0_Suc_less [of n] SHI0_mono [of "n + 1" m] by simp

lemma SHI0_inj: "0 \<le> n \<Longrightarrow> 0 \<le> m \<Longrightarrow> StoredHashIndex 0 n = StoredHashIndex 0 m \<Longrightarrow> n = m"
  using SHI0_strict_mono [of n m] SHI0_strict_mono [of m n] by (cases n m rule: linorder_cases) auto

text \<open>\<^verbatim>\<open>SplitStoredHashIndex\<close> inverts \<^verbatim>\<open>StoredHashIndex\<close> at level 0.\<close>

lemma split_loop_level0:
  "0 \<le> n \<Longrightarrow> n \<le> p \<Longrightarrow>
   split_loop (StoredHashIndex 0 p) n (StoredHashIndex 0 n) = (p, StoredHashIndex 0 p)"
proof (induction "nat (p - n)" arbitrary: n)
  case 0
  then have np: "n = p" by simp
  have "StoredHashIndex 0 p < StoredHashIndex 0 p + 1 + TrailingZeros64 (p + 1)"
    using TrailingZeros64_nonneg [of "p + 1"] by simp
  then show ?case
    unfolding np by (subst split_loop.simps) (simp add: Let_def)
next
  case (Suc k)
  then have lt: "n < p" by simp
  have x: "StoredHashIndex 0 n + 1 + TrailingZeros64 (n + 1) = StoredHashIndex 0 (n + 1)"
    using SHI0_step [OF Suc(3)] by simp
  have le: "StoredHashIndex 0 (n + 1) \<le> StoredHashIndex 0 p"
    using SHI0_mono [of "n + 1" p] Suc(3) lt by simp
  have "split_loop (StoredHashIndex 0 p) n (StoredHashIndex 0 n)
        = split_loop (StoredHashIndex 0 p) (n + 1) (StoredHashIndex 0 (n + 1))"
    using le by (subst split_loop.simps) (simp add: Let_def x)
  also have "\<dots> = (p, StoredHashIndex 0 p)"
    using Suc(1) [of "n + 1"] Suc(2) Suc(3) lt by simp
  finally show ?case .
qed

lemma Split_level0:
  assumes "0 \<le> p"
  shows "SplitStoredHashIndex (StoredHashIndex 0 p) = Ok (0, p)"
proof -
  let ?i = "StoredHashIndex 0 p"
  have b: "p \<le> ?i" "?i \<le> 2 * p" using SHI0_bounds [OF assms] by simp_all
  have n0: "0 \<le> ?i div 2" "?i div 2 \<le> p" using b assms by simp_all
  have "StoredHashIndex 0 (?i div 2) \<le> 2 * (?i div 2)"
    using SHI0_bounds [OF n0(1)] by simp
  then have nopanic: "\<not> StoredHashIndex 0 (?i div 2) > ?i" by simp
  show ?thesis
    using nopanic split_loop_level0 [OF n0]
    by (simp add: SplitStoredHashIndex_def Let_def)
qed

lemma tileForIndex_level0:
  assumes "0 \<le> p" "0 < h"
  shows "tileForIndex h (StoredHashIndex 0 p)
         = Ok (\<lparr>H = h, L = 0, N = p div 2 ^ nat h, W = p mod 2 ^ nat h + 1\<rparr>,
               p mod 2 ^ nat h * HashSize, (p mod 2 ^ nat h + 1) * HashSize)"
proof -
  have "p - p div 2 ^ nat h * 2 ^ nat h = p mod 2 ^ nat h"
    by (simp add: minus_div_mult_eq_mod)
  then show ?thesis
    using assms by (simp add: tileForIndex_def Split_level0 Let_def)
qed

lemma TileForIndex_level0:
  assumes "0 \<le> p"
  shows "TileForIndex tileHeight (StoredHashIndex 0 p)
         = Ok \<lparr>H = 10, L = 0, N = p div 1024, W = p mod 1024 + 1\<rparr>"
  using tileForIndex_level0 [OF assms, of 10]
  by (simp add: TileForIndex_def tileHeight_def)

section \<open>Properties of a sequencing round\<close>

lemma rbind_Ok_D: "rbind m f = Ok b \<Longrightarrow> \<exists>a. m = Ok a \<and> f a = Ok b"
  by (cases m) auto

lemma flush_data_tile_Ok:
  assumes "flush_data_tile r keep = Ok r'"
  shows "\<exists>ti. TileForIndex tileHeight (StoredHashIndex 0 (r_n r - 1)) = Ok ti
           \<and> r' = r\<lparr>r_edgeTiles := (r_edgeTiles r)(- 1 \<mapsto> \<lparr>Tile = ti\<lparr>L := - 1\<rparr>, B = dataTile r\<rparr>),
                     uploads := uploads r @ [(Path (ti\<lparr>L := - 1\<rparr>), dataTile r)],
                     dataTile := keep\<rparr>"
  using assms by (auto simp: flush_data_tile_def Let_def dest!: rbind_Ok_D)

lemma sequence_leaf_Ok:
  assumes "sequence_leaf ledge ts r leaf = Ok r'"
  shows "\<exists>mtl hashes lb r1.
           merkleTreeLeaf leaf ts = Ok mtl
           \<and> StoredHashes (r_n r) mtl (hashReader ledge (newHashes r)) = Ok hashes
           \<and> tileLeaf leaf ts = Ok lb
           \<and> r1 = r\<lparr>newHashes := put_hashes (StoredHashIndex 0 (r_n r)) hashes (newHashes r),
                     dataTile := dataTile r @ lb, r_n := r_n r + 1\<rparr>
           \<and> (if r_n r1 mod tileWidth = 0 then flush_data_tile r1 [] = Ok r' else r' = r1)"
  using assms
  by (auto simp: sequence_leaf_def Let_def split: result.splits if_splits dest!: rbind_Ok_D)

lemma sequence_leaf_n:
  "sequence_leaf ledge ts r leaf = Ok r' \<Longrightarrow> r_n r' = r_n r + 1"
  by (auto dest!: sequence_leaf_Ok flush_data_tile_Ok split: if_splits)

lemma sequence_leaves_n:
  "sequence_leaves ledge ts r leaves = (Ok u, r') \<Longrightarrow> r_n r' = r_n r + int (length leaves)"
proof (induction leaves arbitrary: r)
  case Nil
  then show ?case by simp
next
  case (Cons leaf leaves)
  then show ?case
    by (auto split: result.splits dest!: sequence_leaf_n)
qed

lemma hash_tiles_n:
  "hash_tiles ledge r tiles = (Ok u, r') \<Longrightarrow> r_n r' = r_n r \<and> newHashes r' = newHashes r"
proof (induction tiles arbitrary: r)
  case Nil
  then show ?case by simp
next
  case (Cons ti tiles)
  then show ?case
    by (auto split: result.splits)
qed

lemma TileForIndex_level0_any:
  "\<exists>ti. TileForIndex tileHeight (StoredHashIndex 0 m) = Ok ti"
proof (cases "0 \<le> m")
  case True
  then show ?thesis by (simp add: TileForIndex_level0)
next
  case False
  then have "StoredHashIndex 0 m = StoredHashIndex 0 0" by (simp add: SHI0_nonpos)
  then show ?thesis using TileForIndex_level0 [of 0] by simp
qed

lemma new_tiles_from_same: "new_tiles_from h n n level = []"
proof (induction h n n level rule: new_tiles_from.induct)
  case (1 h oldTreeSize level)
  show ?case
    using 1 by (subst new_tiles_from.simps) (simp add: Let_def)
qed

lemma NewTiles_same: "NewTiles tileHeight n n = Ok []"
  by (simp add: NewTiles_def tileHeight_def new_tiles_from_same)

lemma Wait_all_ok: "\<forall>k d. Upload ev k d = None \<Longrightarrow> Wait ev ups = None"
  by (induction ups) auto

lemma run_uploads_sth:
  "\<forall>(k, d) \<in> set ups. k \<noteq> k0 \<Longrightarrow> run_uploads ev ups s k0 = s k0"
  by (induction ups arbitrary: s) (auto split: option.splits)

lemma build_round_intro:
  assumes "sequence_leaves (edgeTiles l) ts (round_start l) (pendingLeaves p) = (Ok (), rA)"
    and "(if r_n rA mod tileWidth \<noteq> 0 then flush_data_tile rA (dataTile rA) else Ok rA) = Ok rB"
    and "NewTiles tileHeight (Tree_N (tree l)) (r_n rB) = Ok tiles"
    and "hash_tiles (edgeTiles l) rB tiles = (Ok (), rC)"
    and "Wait ev (uploads rC) = None"
    and "TreeHash (r_n rC) (hashReader (edgeTiles l) (newHashes rC)) = Ok h"
    and "signTreeHead ev (name l) (logID l) (privKey l)
           \<lparr>Tree_N = r_n rC, Tree_Hash = h, Time = ts\<rparr> = Ok cp"
  shows "build_round ev l p ts = (Ok (\<lparr>Tree_N = r_n rC, Tree_Hash = h, Time = ts\<rparr>, cp), rC)"
  unfolding build_round_def Let_def
  by (simp only: assms prod.case result.case option.case rbind.simps)

lemma build_round_elim:
  assumes "build_round ev l p ts = (Ok (t, cp), r)"
  shows "\<exists>rA rB tiles.
           sequence_leaves (edgeTiles l) ts (round_start l) (pendingLeaves p) = (Ok (), rA)
           \<and> (if r_n rA mod tileWidth \<noteq> 0 then flush_data_tile rA (dataTile rA) else Ok rA) = Ok rB
           \<and> NewTiles tileHeight (Tree_N (tree l)) (r_n rB) = Ok tiles
           \<and> hash_tiles (edgeTiles l) rB tiles = (Ok (), r)
           \<and> Wait ev (uploads r) = None
           \<and> TreeHash (r_n r) (hashReader (edgeTiles l) (newHashes r)) = Ok (Tree_Hash t)
           \<and> t = \<lparr>Tree_N = r_n r, Tree_Hash = Tree_Hash t, Time = ts\<rparr>
           \<and> signTreeHead ev (name l) (logID l) (privKey l) t = Ok cp"
  using assms
  unfolding build_round_def Let_def
  by (auto split: prod.splits result.splits option.splits dest!: rbind_Ok_D)

lemma build_round_Ok:
  assumes "build_round ev l p ts = (Ok (t, cp), r)"
  shows "Tree_N t = Tree_N (tree l) + int (length (pendingLeaves p)) \<and> Time t = ts
         \<and> r_n r = Tree_N t
         \<and> signTreeHead ev (name l) (logID l) (privKey l) t = Ok cp
         \<and> TreeHash (r_n r) (hashReader (edgeTiles l) (newHashes r)) = Ok (Tree_Hash t)
         \<and> Wait ev (uploads r) = None"
proof -
  from build_round_elim [OF assms] obtain rA rB tiles where
    a: "sequence_leaves (edgeTiles l) ts (round_start l) (pendingLeaves p) = (Ok (), rA)"
    and b: "(if r_n rA mod tileWidth \<noteq> 0 then flush_data_tile rA (dataTile rA) else Ok rA) = Ok rB"
    and c: "hash_tiles (edgeTiles l) rB tiles = (Ok (), r)"
    and d: "Wait ev (uploads r) = None"
      "TreeHash (r_n r) (hashReader (edgeTiles l) (newHashes r)) = Ok (Tree_Hash t)"
      "t = \<lparr>Tree_N = r_n r, Tree_Hash = Tree_Hash t, Time = ts\<rparr>"
      "signTreeHead ev (name l) (logID l) (privKey l) t = Ok cp"
    by blast
  have "r_n rA = Tree_N (tree l) + int (length (pendingLeaves p))"
    using sequence_leaves_n [OF a] by (simp add: round_start_def)
  moreover have "r_n rB = r_n rA"
    using b by (auto split: if_splits dest!: flush_data_tile_Ok)
  moreover have "r_n r = r_n rB"
    using hash_tiles_n [OF c] by simp
  moreover have "Tree_N t = r_n r" "Time t = ts"
    by (subst d(3), simp)+
  ultimately show ?thesis using d by simp
qed

lemma sequencePool_Ok:
  assumes "sequencePool ev l = (Ok (), l')"
  shows "\<exists>t cp r.
           build_round ev (l\<lparr>currentPool := Suc (currentPool l),
                              pools := (pools l)(Suc (currentPool l) := new_pool)\<rparr>)
              (pools l (currentPool l)) (timeNowUnixMilli ev) = (Ok (t, cp), r)
           \<and> \<not> sint (timeNowUnixMilli ev) \<le> sint (Time (tree l))
           \<and> Upload ev KeySth cp = None
           \<and> l' = l\<lparr>currentPool := Suc (currentPool l),
                     pools := (pools l)(Suc (currentPool l) := new_pool,
                        currentPool l := (pools l (currentPool l))
                          \<lparr>timestamp := timeNowUnixMilli ev,
                           firstLeafIndex := Tree_N (tree l), done_closed := True\<rparr>),
                     backend := (run_uploads ev (uploads r) (backend l))(KeySth \<mapsto> cp),
                     tree := t, edgeTiles := r_edgeTiles r\<rparr>"
  using assms
  by (auto simp: sequencePool_def Let_def split: prod.splits result.splits option.splits if_splits)

lemma addLeafToPool_fst:
  "currentPool (fst (addLeafToPool l e)) = currentPool l
   \<and> tree (fst (addLeafToPool l e)) = tree l
   \<and> pendingLeaves (pools (fst (addLeafToPool l e)) (currentPool l))
       = pendingLeaves (pools l (currentPool l)) @ [e]"
  by (simp add: addLeafToPool_def Let_def)

lemma addLeafToPool_fold:
  "currentPool (foldl (\<lambda>l e. fst (addLeafToPool l e)) l es) = currentPool l
   \<and> tree (foldl (\<lambda>l e. fst (addLeafToPool l e)) l es) = tree l
   \<and> pendingLeaves (pools (foldl (\<lambda>l e. fst (addLeafToPool l e)) l es) (currentPool l))
       = pendingLeaves (pools l (currentPool l)) @ es"
proof (induction es arbitrary: l)
  case Nil
  show ?case by simp
next
  case (Cons e es)
  from Cons.IH [of "fst (addLeafToPool l e)"] addLeafToPool_fst [of l e]
  show ?case by simp
qed

text \<open>
  Claim C3. \<^verbatim>\<open>sequencePool\<close> returns an error whenever the clock reading is not after
  \<^verbatim>\<open>tree.Time\<close>; and on every error return the log's tree and edge tiles are unchanged
  and so is the captured pool: its \<^verbatim>\<open>done\<close> channel stays open, its
  \<^verbatim>\<open>firstLeafIndex\<close> and \<^verbatim>\<open>timestamp\<close> unset.
\<close>

theorem sequencePool_error_atomic:
  "(sint (timeNowUnixMilli ev) \<le> sint (Time (tree l)) \<longrightarrow> (\<exists>e. fst (sequencePool ev l) = Error e))
   \<and> (\<forall>e. fst (sequencePool ev l) = Error e \<longrightarrow>
          tree (snd (sequencePool ev l)) = tree l
          \<and> edgeTiles (snd (sequencePool ev l)) = edgeTiles l
          \<and> pools (snd (sequencePool ev l)) (currentPool l) = pools l (currentPool l))"
  by (auto simp: sequencePool_def Let_def split: prod.splits result.splits option.splits)

theorem sequencePool_error_atomic_witness:
  "(\<exists>e. fst (sequencePool (sample_env 5) sample_log) = Error e)
   \<and> tree (snd (sequencePool (sample_env 5) sample_log)) = tree sample_log
   \<and> edgeTiles (snd (sequencePool (sample_env 5) sample_log)) = edgeTiles sample_log
   \<and> pools (snd (sequencePool (sample_env 5) sample_log)) (currentPool sample_log)
       = pools sample_log (currentPool sample_log)
   \<and> \<not> done_closed (pools (snd (sequencePool (sample_env 5) sample_log)) (currentPool sample_log))"
proof -
  have t: "sint (timeNowUnixMilli (sample_env 5)) \<le> sint (Time (tree sample_log))"
    by (simp add: sample_env_def sample_log_def)
  have e: "fst (sequencePool (sample_env 5) sample_log) = Error TimeDidNotProgress"
    by (simp add: sequencePool_def sample_env_def sample_log_def Let_def)
  have d: "\<not> done_closed (pools sample_log (currentPool sample_log))"
    by (simp add: sample_log_def new_pool_def)
  show ?thesis
    using sequencePool_error_atomic [of "sample_env 5" sample_log] t e d by simp
qed

subsection \<open>A round, evaluated\<close>

lemmas tlog_eval = StoredHashIndex_def sum_halves.simps TrailingZeros64.simps split_loop.simps
  SplitStoredHashIndex_def tileForIndex_def TileForIndex_def new_tiles_from.simps NewTiles_def
  maxpow2_loop.simps maxpow2_def subTreeIndex.simps numTree.simps subTreeHash_def TreeHash_def
  StoredHashes_def StoredHashesForRecordHash_def ReadTileData_def HashFromTile_def slice_def
  tileHash.simps HashSize_def tileHeight_def tileWidth_def

lemmas round_eval = sequencePool_def build_round_def round_start_def sequence_leaf_def flush_data_tile_def
  addLeafToPool_def sample_log_def sample_env_def sample_key_def x509_entry_def new_pool_def
  merkleTreeLeaf_def tileLeaf_def timestampedEntry_def builder_defs BytesOrPanic_def Bytes_def
  signTreeHead_def digitallySign_def SerializeSTHSignatureInput_def Path_def
  lookup_tile_def zero_tileWithBytes_def zero_tile_def be_bytes_numeral Let_def

lemma sample_round:
  "sequencePool (sample_env 20) (fst (addLeafToPool sample_log (x509_entry [170])))
     = (Ok (), sample_log_1)"
  by (simp add: tlog_eval round_eval sample_log_1_def sample_leaf_def fun_upd_twist)


subsection \<open>A round over an empty pool\<close>

text \<open>
  Claim C9, amended. If the captured pool is empty, the clock has advanced past
  \<^verbatim>\<open>tree.Time\<close>, all uploads succeed, \<^verbatim>\<open>TreeHash\<close> computes a root \<open>h\<close> from the edge
  tiles, and signing the tree head succeeds, then the round succeeds: it uploads under
  \<^verbatim>\<open>"sth"\<close> the checkpoint of the same size, the root \<open>h\<close> and the new timestamp, and
  closes the pool's \<^verbatim>\<open>done\<close> channel with \<^verbatim>\<open>firstLeafIndex\<close> the unchanged size. For size
  0 the root \<open>h\<close> is the zero hash, whatever root the log held.
\<close>

theorem empty_pool_round:
  assumes empty: "pendingLeaves (pools l (currentPool l)) = []"
    and time: "sint (Time (tree l)) < sint (timeNowUnixMilli ev)"
    and up: "\<forall>k d. Upload ev k d = None"
    and th: "TreeHash (Tree_N (tree l)) (hashReader (edgeTiles l) Map.empty) = Ok h"
    and sg: "signTreeHead ev (name l) (logID l) (privKey l)
               \<lparr>Tree_N = Tree_N (tree l), Tree_Hash = h, Time = timeNowUnixMilli ev\<rparr> = Ok cp"
  shows "\<exists>l'. sequencePool ev l = (Ok (), l')
           \<and> tree l' = \<lparr>Tree_N = Tree_N (tree l), Tree_Hash = h, Time = timeNowUnixMilli ev\<rparr>
           \<and> backend l' KeySth = Some cp
           \<and> pools l' (currentPool l)
               = (pools l (currentPool l))\<lparr>timestamp := timeNowUnixMilli ev,
                    firstLeafIndex := Tree_N (tree l), done_closed := True\<rparr>
           \<and> (Tree_N (tree l) = 0 \<longrightarrow> h = 0)"
proof -
  define l1 where "l1 = l\<lparr>currentPool := Suc (currentPool l),
                          pools := (pools l)(Suc (currentPool l) := new_pool)\<rparr>"
  define r0 where "r0 = round_start l1"
  have l1: "tree l1 = tree l" "edgeTiles l1 = edgeTiles l" "name l1 = name l"
    "logID l1 = logID l" "privKey l1 = privKey l"
    by (simp_all add: l1_def)
  have r0: "r_n r0 = Tree_N (tree l)" "newHashes r0 = Map.empty"
    by (simp_all add: r0_def round_start_def l1)
  obtain r1 where fl: "(if r_n r0 mod tileWidth \<noteq> 0 then flush_data_tile r0 (dataTile r0) else Ok r0) = Ok r1"
    and r1: "r_n r1 = Tree_N (tree l)" "newHashes r1 = Map.empty"
  proof (cases "r_n r0 mod tileWidth \<noteq> 0")
    case True
    obtain ti where "TileForIndex tileHeight (StoredHashIndex 0 (r_n r0 - 1)) = Ok ti"
      using TileForIndex_level0_any by blast
    then show ?thesis
      using True that r0 by (simp add: flush_data_tile_def Let_def)
  next
    case False
    then show ?thesis using that r0 by simp
  qed
  have b: "build_round ev l1 (pools l (currentPool l)) (timeNowUnixMilli ev)
           = (Ok (\<lparr>Tree_N = r_n r1, Tree_Hash = h, Time = timeNowUnixMilli ev\<rparr>, cp), r1)"
  proof (rule build_round_intro [where rA = r0 and rB = r1 and tiles = "[]"])
    show "sequence_leaves (edgeTiles l1) (timeNowUnixMilli ev) (round_start l1)
            (pendingLeaves (pools l (currentPool l))) = (Ok (), r0)"
      by (simp add: empty r0_def)
    show "(if r_n r0 mod tileWidth \<noteq> 0 then flush_data_tile r0 (dataTile r0) else Ok r0) = Ok r1"
      by (rule fl)
    show "NewTiles tileHeight (Tree_N (tree l1)) (r_n r1) = Ok []"
      by (simp add: l1 r1 NewTiles_same)
    show "hash_tiles (edgeTiles l1) r1 [] = (Ok (), r1)" by simp
    show "Wait ev (uploads r1) = None" by (rule Wait_all_ok [OF up])
    show "TreeHash (r_n r1) (hashReader (edgeTiles l1) (newHashes r1)) = Ok h"
      using th by (simp add: l1 r1)
    show "signTreeHead ev (name l1) (logID l1) (privKey l1)
           \<lparr>Tree_N = r_n r1, Tree_Hash = h, Time = timeNowUnixMilli ev\<rparr> = Ok cp"
      using sg by (simp add: l1 r1)
  qed
  have h0: "Tree_N (tree l) = 0 \<longrightarrow> h = 0"
    using th by (auto simp: TreeHash_def)
  have t: "\<not> sint (timeNowUnixMilli ev) \<le> sint (Time (tree l1))"
    using time by (simp add: l1)
  have "sequencePool ev l =
     (Ok (), l1\<lparr>backend := (run_uploads ev (uploads r1) (backend l1))(KeySth \<mapsto> cp),
                pools := (pools l1)(currentPool l := (pools l (currentPool l))
                   \<lparr>timestamp := timeNowUnixMilli ev,
                    firstLeafIndex := Tree_N (tree l1), done_closed := True\<rparr>),
                tree := \<lparr>Tree_N = r_n r1, Tree_Hash = h, Time = timeNowUnixMilli ev\<rparr>,
                edgeTiles := r_edgeTiles r1\<rparr>)"
    unfolding sequencePool_def Let_def l1_def [symmetric]
    using b t up by simp
  then show ?thesis
    using h0 r1 by (simp add: l1)
qed

theorem empty_pool_round_witness:
  "\<exists>l'. sequencePool (sample_env 20) sample_log = (Ok (), l')
      \<and> tree l' = \<lparr>Tree_N = 0, Tree_Hash = 0, Time = 20\<rparr>
      \<and> backend l' KeySth = Some (be_bytes 8 0 @ hash_bytes 0 @ be_bytes 8 20 @ [4, 3, 0, 2, 9, 9])
      \<and> done_closed (pools l' 0) \<and> firstLeafIndex (pools l' 0) = 0 \<and> timestamp (pools l' 0) = 20"
proof -
  have e: "pendingLeaves (pools sample_log (currentPool sample_log)) = []"
    by (simp add: sample_log_def new_pool_def)
  have t: "sint (Time (tree sample_log)) < sint (timeNowUnixMilli (sample_env 20))"
    by (simp add: sample_log_def sample_env_def)
  have u: "\<forall>k d. Upload (sample_env 20) k d = None"
    by (simp add: sample_env_def)
  have h: "TreeHash (Tree_N (tree sample_log)) (hashReader (edgeTiles sample_log) Map.empty) = Ok 0"
    by (simp add: sample_log_def TreeHash_def)
  have s: "signTreeHead (sample_env 20) (name sample_log) (logID sample_log) (privKey sample_log)
             \<lparr>Tree_N = Tree_N (tree sample_log), Tree_Hash = 0,
                Time = timeNowUnixMilli (sample_env 20)\<rparr>
           = Ok (be_bytes 8 0 @ hash_bytes 0 @ be_bytes 8 20 @ [4, 3, 0, 2, 9, 9])"
    by (simp add: sample_log_def sample_env_def sample_key_def signTreeHead_def digitallySign_def
          builder_defs Bytes_def be_bytes_2)
  from empty_pool_round [OF e t u h s]
  show ?thesis
    by (auto simp: sample_log_def sample_env_def)
qed

text \<open>
  A log loaded from a checkpoint of size 0 whose root is the RFC 6962 hash of the empty
  tree: its empty round publishes the zero hash, another root for the same size.
\<close>

lemma rfc_empty_log_loaded:
  "LoadLog (sample_env 10) ''log'' sample_key
     [KeySth \<mapsto> be_bytes 8 0
        @ hash_bytes 0xe3b0c44298fc1c149afbf4c8996fb92427ae41e4649b934ca495991b7852b855
        @ be_bytes 8 5 @ [4, 3, 0, 2, 9, 9]] = Ok rfc_empty_log"
  by (simp add: LoadLog_def Fetch_def sample_env_def sample_key_def rfc_empty_log_def
        hash_bytes_def be_bytes_numeral be_nat_def)

theorem empty_pool_round_changes_root:
  "LoadLog (sample_env 10) ''log'' sample_key
     [KeySth \<mapsto> be_bytes 8 0
        @ hash_bytes 0xe3b0c44298fc1c149afbf4c8996fb92427ae41e4649b934ca495991b7852b855
        @ be_bytes 8 5 @ [4, 3, 0, 2, 9, 9]] = Ok rfc_empty_log
   \<and> pendingLeaves (pools rfc_empty_log (currentPool rfc_empty_log)) = []
   \<and> fst (sequencePool (sample_env 20) rfc_empty_log) = Ok ()
   \<and> Tree_N (tree (snd (sequencePool (sample_env 20) rfc_empty_log))) = Tree_N (tree rfc_empty_log)
   \<and> Tree_Hash (tree (snd (sequencePool (sample_env 20) rfc_empty_log))) = 0
   \<and> Tree_Hash (tree rfc_empty_log) \<noteq> 0"
proof -
  define res where "res = sequencePool (sample_env 20) rfc_empty_log"
  have 1: "fst res = Ok ()"
    and 2: "tree (snd res) = \<lparr>Tree_N = 0, Tree_Hash = 0, Time = 20\<rparr>"
    by (simp_all add: res_def tlog_eval round_eval rfc_empty_log_def)
  have 3: "pendingLeaves (pools rfc_empty_log (currentPool rfc_empty_log)) = []"
    and 4: "Tree_N (tree rfc_empty_log) = 0"
    and 5: "Tree_Hash (tree rfc_empty_log) \<noteq> 0"
    by (simp_all add: rfc_empty_log_def new_pool_def)
  show ?thesis
    unfolding res_def [symmetric]
    using rfc_empty_log_loaded 1 3 5 by (simp only: 2 4 treeWithTimestamp.simps simp_thms)
qed

section \<open>The order of the leaves in the published tree\<close>

subsection \<open>Hashes as bytes\<close>

lemma length_hash_bytes [simp]: "length (hash_bytes h) = 32"
  by (simp add: hash_bytes_def)

lemma hash_of_bytes_hash_bytes [simp]: "hash_of_bytes (hash_bytes h) = h"
proof -
  have "unat h < 2 ^ 256" using unsigned_less [of h, where 'a = nat] by simp
  then have "unat h < 256 ^ 32" by simp
  then show ?thesis by (simp add: hash_of_bytes_def hash_bytes_def be_nat_be_bytes)
qed

lemma concat_hash_bytes_chunk:
  "i < length hs \<Longrightarrow>
   take 32 (drop (32 * i) (concat (map hash_bytes hs))) = hash_bytes (hs ! i)"
proof (induction hs arbitrary: i)
  case Nil
  then show ?case by simp
next
  case (Cons h hs)
  show ?case
  proof (cases i)
    case 0
    then show ?thesis by simp
  next
    case (Suc k)
    with Cons.prems have "k < length hs" by simp
    from Cons.IH [OF this] show ?thesis by (simp add: Suc)
  qed
qed

lemma length_concat_hash_bytes: "length (concat (map hash_bytes hs)) = 32 * length hs"
  by (induction hs) simp_all

lemma word_of_nat_be_nat_hash_bytes [simp]: "word_of_nat (be_nat (hash_bytes h)) = h"
  using hash_of_bytes_hash_bytes [of h] by (simp add: hash_of_bytes_def)

subsection \<open>The overlay\<close>

lemma put_hashes_apply:
  "put_hashes i hs m k =
     (if i \<le> k \<and> k < i + int (length hs) then Some (hs ! nat (k - i)) else m k)"
proof (induction hs arbitrary: i m)
  case Nil
  then show ?case by auto
next
  case (Cons h hs)
  have ih: "put_hashes (i + 1) hs (m(i \<mapsto> h)) k =
     (if i + 1 \<le> k \<and> k < i + 1 + int (length hs) then Some (hs ! nat (k - (i + 1)))
      else (m(i \<mapsto> h)) k)"
    by (rule Cons.IH)
  show ?case
  proof (cases "k = i")
    case True
    have "put_hashes i (h # hs) m k = (m(i \<mapsto> h)) k"
      unfolding put_hashes.simps ih using True by simp
    then show ?thesis using True by simp
  next
    case False
    show ?thesis
    proof (cases "i + 1 \<le> k \<and> k < i + 1 + int (length hs)")
      case True
      then have "nat (k - i) = Suc (nat (k - (i + 1)))" by arith
      then have "(h # hs) ! nat (k - i) = hs ! nat (k - (i + 1))" by simp
      then show ?thesis
        unfolding put_hashes.simps ih using True by simp
    next
      case F: False
      then have "\<not> (i \<le> k \<and> k < i + int (length (h # hs)))" using False by auto
      then have "(if i \<le> k \<and> k < i + int (length (h # hs))
                  then Some ((h # hs) ! nat (k - i)) else m k) = m k"
        by (simp only: if_False)
      moreover have "put_hashes i (h # hs) m k = m k"
        unfolding put_hashes.simps ih using F False by (simp only: if_False fun_upd_apply)
      ultimately show ?thesis by (simp only:)
    qed
  qed
qed

lemma node_chain_hd: "\<exists>tl. node_chain h olds = h # tl"
  by (cases olds) simp_all

lemma StoredHashes_Ok:
  "StoredHashes n data r = Ok hashes \<Longrightarrow> \<exists>tl. hashes = RecordHash data # tl"
  using node_chain_hd
  by (auto simp: StoredHashes_def StoredHashesForRecordHash_def Let_def
           split: if_splits dest!: rbind_Ok_D)

lemma sequence_leaf_overlay:
  assumes "sequence_leaf ledge ts r leaf = Ok r'"
  shows "\<exists>mtl. merkleTreeLeaf leaf ts = Ok mtl
           \<and> newHashes r' (StoredHashIndex 0 (r_n r)) = Some (RecordHash mtl)
           \<and> (\<forall>k < StoredHashIndex 0 (r_n r). newHashes r' k = newHashes r k)"
proof -
  from sequence_leaf_Ok [OF assms] obtain mtl hashes lb r1 where
    m: "merkleTreeLeaf leaf ts = Ok mtl"
    and s: "StoredHashes (r_n r) mtl (hashReader ledge (newHashes r)) = Ok hashes"
    and r1: "r1 = r\<lparr>newHashes := put_hashes (StoredHashIndex 0 (r_n r)) hashes (newHashes r),
                     dataTile := dataTile r @ lb, r_n := r_n r + 1\<rparr>"
    and f: "if r_n r1 mod tileWidth = 0 then flush_data_tile r1 [] = Ok r' else r' = r1"
    by blast
  have nh: "newHashes r' = put_hashes (StoredHashIndex 0 (r_n r)) hashes (newHashes r)"
    using f r1 by (auto split: if_splits dest!: flush_data_tile_Ok)
  from StoredHashes_Ok [OF s] obtain tl where h: "hashes = RecordHash mtl # tl" by blast
  show ?thesis
    using m by (auto simp: nh put_hashes_apply h)
qed

lemma sequence_leaves_overlay:
  assumes "sequence_leaves ledge ts r leaves = (Ok u, r')" and "0 \<le> r_n r"
  shows "(\<forall>j < length leaves. \<exists>mtl. merkleTreeLeaf (leaves ! j) ts = Ok mtl
            \<and> newHashes r' (StoredHashIndex 0 (r_n r + int j)) = Some (RecordHash mtl))
         \<and> (\<forall>k < StoredHashIndex 0 (r_n r). newHashes r' k = newHashes r k)"
  using assms
proof (induction leaves arbitrary: r)
  case Nil
  then show ?case by simp
next
  case (Cons leaf leaves)
  from Cons.prems(1) obtain r1 where
    one: "sequence_leaf ledge ts r leaf = Ok r1"
    and rest: "sequence_leaves ledge ts r1 leaves = (Ok u, r')"
    by (auto split: result.splits)
  have n1: "r_n r1 = r_n r + 1" by (rule sequence_leaf_n [OF one])
  then have pos: "0 \<le> r_n r1" using Cons.prems(2) by simp
  from sequence_leaf_overlay [OF one] obtain mtl where
    m: "merkleTreeLeaf leaf ts = Ok mtl"
    and at: "newHashes r1 (StoredHashIndex 0 (r_n r)) = Some (RecordHash mtl)"
    and below: "\<forall>k < StoredHashIndex 0 (r_n r). newHashes r1 k = newHashes r k"
    by blast
  from Cons.IH [OF rest pos]
  have ih: "\<forall>j < length leaves. \<exists>mtl. merkleTreeLeaf (leaves ! j) ts = Ok mtl
            \<and> newHashes r' (StoredHashIndex 0 (r_n r1 + int j)) = Some (RecordHash mtl)"
    and ihb: "\<forall>k < StoredHashIndex 0 (r_n r1). newHashes r' k = newHashes r1 k"
    by simp_all
  have lt: "StoredHashIndex 0 (r_n r) < StoredHashIndex 0 (r_n r1)"
    unfolding n1 by (rule SHI0_Suc_less [OF Cons.prems(2)])
  have first: "newHashes r' (StoredHashIndex 0 (r_n r)) = Some (RecordHash mtl)"
    using ihb lt at by simp
  have "\<exists>mtl. merkleTreeLeaf ((leaf # leaves) ! j) ts = Ok mtl
            \<and> newHashes r' (StoredHashIndex 0 (r_n r + int j)) = Some (RecordHash mtl)"
    if "j < length (leaf # leaves)" for j
  proof (cases j)
    case 0
    then show ?thesis using m first by simp
  next
    case (Suc i)
    with that have "i < length leaves" by simp
    with ih have "\<exists>mtl. merkleTreeLeaf (leaves ! i) ts = Ok mtl
            \<and> newHashes r' (StoredHashIndex 0 (r_n r1 + int i)) = Some (RecordHash mtl)"
      by blast
    moreover have "r_n r1 + int i = r_n r + int j" using n1 Suc by simp
    ultimately show ?thesis using Suc by simp
  qed
  moreover have "\<forall>k < StoredHashIndex 0 (r_n r). newHashes r' k = newHashes r k"
    using ihb below lt by auto
  ultimately show ?case by blast
qed


subsection \<open>Tiles read through the hash reader\<close>

lemma hashReader_Ok:
  "hashReader edge ov ids = Ok hs \<Longrightarrow>
   length hs = length ids \<and> (\<forall>i < length ids. \<forall>h. ov (ids ! i) = Some h \<longrightarrow> hs ! i = h)"
proof (induction ids arbitrary: hs)
  case Nil
  then show ?case by simp
next
  case (Cons a ids)
  from Cons.prems obtain h0 list where
    h0: "(case ov a of Some h \<Rightarrow> Ok h
          | None \<Rightarrow> rbind (TileForIndex tileHeight a) (\<lambda>ti.
                      (let t = lookup_tile edge (L ti) in HashFromTile (Tile t) (B t) a))) = Ok h0"
    and l: "hashReader edge ov ids = Ok list" and hs: "hs = h0 # list"
    by (auto dest!: rbind_Ok_D)
  from Cons.IH [OF l] have ih: "length list = length ids"
    "\<forall>i < length ids. \<forall>h. ov (ids ! i) = Some h \<longrightarrow> list ! i = h" by simp_all
  have "hs ! i = h" if "i < length (a # ids)" "ov ((a # ids) ! i) = Some h" for i h
  proof (cases i)
    case 0
    with that h0 show ?thesis by (simp add: hs)
  next
    case (Suc k)
    with that ih show ?thesis by (simp add: hs)
  qed
  then show ?case using ih by (simp add: hs)
qed

lemma ReadTileData_chunk:
  assumes rd: "ReadTileData t (hashReader edge ov) = Ok data"
    and w: "0 < W t" and i: "i < nat (W t)"
    and ov: "ov (StoredHashIndex (H t * L t) (N t * 2 ^ nat (H t) + int i)) = Some h"
  shows "take 32 (drop (32 * i) data) = hash_bytes h \<and> length data = 32 * nat (W t)"
proof -
  let ?ids = "map (\<lambda>i. StoredHashIndex (H t * L t) (N t * 2 ^ nat (H t) + int i)) [0..<nat (W t)]"
  from rd w obtain hs where r: "hashReader edge ov ?ids = Ok hs"
    and d: "data = concat (map hash_bytes hs)"
    by (auto simp: ReadTileData_def Let_def split: if_splits dest!: rbind_Ok_D)
  from hashReader_Ok [OF r] have len: "length hs = nat (W t)"
    and nth: "\<forall>j < nat (W t). \<forall>h. ov (?ids ! j) = Some h \<longrightarrow> hs ! j = h"
    by simp_all
  have "?ids ! i = StoredHashIndex (H t * L t) (N t * 2 ^ nat (H t) + int i)"
    using i by simp
  with nth i ov have "hs ! i = h" by metis
  then show ?thesis
    using concat_hash_bytes_chunk [of i hs] i len by (simp add: d length_concat_hash_bytes)
qed

lemma hash_tiles_uploads:
  "hash_tiles ledge r tiles = (Ok u, r') \<Longrightarrow>
   \<exists>ds. length ds = length tiles
      \<and> (\<forall>i < length tiles. ReadTileData (tiles ! i) (hashReader ledge (newHashes r)) = Ok (ds ! i))
      \<and> uploads r' = uploads r @ zip (map Path tiles) ds"
proof (induction tiles arbitrary: r)
  case Nil
  then show ?case by simp
next
  case (Cons ti tiles)
  from Cons.prems obtain data where
    rd: "ReadTileData ti (hashReader ledge (newHashes r)) = Ok data"
    by (auto split: result.splits)
  define r1 where "r1 = r\<lparr>r_edgeTiles :=
                  (case r_edgeTiles r (L ti) of
                     None \<Rightarrow> (r_edgeTiles r)(L ti \<mapsto> \<lparr>Tile = ti, B = data\<rparr>)
                   | Some t \<Rightarrow>
                       if N (Tile t) < N ti \<or> (N (Tile t) = N ti \<and> W (Tile t) < W ti)
                       then (r_edgeTiles r)(L ti \<mapsto> \<lparr>Tile = ti, B = data\<rparr>)
                       else r_edgeTiles r),
                uploads := uploads r @ [(Path ti, data)]\<rparr>"
  have r1: "uploads r1 = uploads r @ [(Path ti, data)]" "newHashes r1 = newHashes r"
    by (simp_all add: r1_def)
  have rest: "hash_tiles ledge r1 tiles = (Ok u, r')"
    using Cons.prems rd by (simp add: r1_def)
  from Cons.IH [OF rest] obtain ds where
    ds: "length ds = length tiles"
      "\<forall>i < length tiles. ReadTileData (tiles ! i) (hashReader ledge (newHashes r)) = Ok (ds ! i)"
      "uploads r' = uploads r @ (Path ti, data) # zip (map Path tiles) ds"
    using r1 by auto
  have "\<forall>i < length (ti # tiles).
          ReadTileData ((ti # tiles) ! i) (hashReader ledge (newHashes r)) = Ok ((data # ds) ! i)"
    using rd ds(2) by (auto simp: nth_Cons split: nat.splits)
  with ds show ?case
    by (intro exI [of _ "data # ds"]) simp
qed

subsection \<open>The uploads of a round\<close>

lemma Wait_None: "Wait ev ups = None \<Longrightarrow> (k, d) \<in> set ups \<Longrightarrow> Upload ev k d = None"
  by (induction ups) (auto split: option.splits)

lemma run_uploads_unique:
  assumes "\<forall>(k', d') \<in> set ups. Upload ev k' d' = None"
    and "\<forall>d'. (k, d') \<in> set ups \<longrightarrow> d' = d"
    and "(k, d) \<in> set ups \<or> s k = Some d"
  shows "run_uploads ev ups s k = Some d"
  using assms
proof (induction ups arbitrary: s)
  case Nil
  then show ?case by simp
next
  case (Cons a ups)
  obtain k' d' where a: "a = (k', d')" by (cases a)
  have ok: "Upload ev k' d' = None" using Cons.prems(1) a by simp
  have "run_uploads ev ups (s(k' \<mapsto> d')) k = Some d"
  proof (rule Cons.IH)
    show "\<forall>(k', d') \<in> set ups. Upload ev k' d' = None" using Cons.prems(1) by simp
    show "\<forall>d'. (k, d') \<in> set ups \<longrightarrow> d' = d" using Cons.prems(2) by simp
    show "(k, d) \<in> set ups \<or> (s(k' \<mapsto> d')) k = Some d"
      using Cons.prems(2,3) a by auto
  qed
  then show ?case by (simp add: a ok)
qed

lemma Path_inject: "Path t = Path t' \<Longrightarrow> t = t'"
  by (cases t; cases t') (auto simp: Path_def split: if_splits)

text \<open>Before the hash tiles, a round uploads data tiles only.\<close>


lemma data_uploads_snoc:
  "data_uploads ups \<Longrightarrow> L t = - 1 \<Longrightarrow> data_uploads (ups @ [(Path t, d)])"
  by (auto simp: data_uploads_def)

lemma flush_data_uploads:
  assumes "flush_data_tile r keep = Ok r'" and "data_uploads (uploads r)"
  shows "data_uploads (uploads r')"
proof -
  from flush_data_tile_Ok [OF assms(1)] obtain ti where
    "uploads r' = uploads r @ [(Path (ti\<lparr>L := - 1\<rparr>), dataTile r)]"
    by auto
  then show ?thesis using data_uploads_snoc [OF assms(2), of "ti\<lparr>L := - 1\<rparr>"] by simp
qed

lemma sequence_leaf_data_uploads:
  assumes "sequence_leaf ledge ts r leaf = Ok r'" and "data_uploads (uploads r)"
  shows "data_uploads (uploads r')"
proof -
  from sequence_leaf_Ok [OF assms(1)] obtain mtl hashes lb r1 where
    r1: "r1 = r\<lparr>newHashes := put_hashes (StoredHashIndex 0 (r_n r)) hashes (newHashes r),
                     dataTile := dataTile r @ lb, r_n := r_n r + 1\<rparr>"
    and f: "if r_n r1 mod tileWidth = 0 then flush_data_tile r1 [] = Ok r' else r' = r1"
    by blast
  have u: "uploads r1 = uploads r" by (simp add: r1)
  show ?thesis
  proof (cases "r_n r1 mod tileWidth = 0")
    case True
    with f have "flush_data_tile r1 [] = Ok r'" by simp
    from flush_data_uploads [OF this] assms(2) u show ?thesis by simp
  next
    case False
    with f assms(2) u show ?thesis by simp
  qed
qed

lemma sequence_leaves_data_uploads:
  "sequence_leaves ledge ts r leaves = (Ok u, r') \<Longrightarrow> data_uploads (uploads r)
   \<Longrightarrow> data_uploads (uploads r')"
proof (induction leaves arbitrary: r)
  case Nil
  then show ?case by simp
next
  case (Cons leaf leaves)
  then show ?case
    by (auto split: result.splits dest: sequence_leaf_data_uploads)
qed

subsection \<open>The new level-0 tiles\<close>

lemma level0_tile_in_new_tiles:
  assumes "0 \<le> a" "a \<le> p" "p < b"
  shows "level0_tile b p \<in> set (new_tiles_from 10 a b 0)"
proof -
  define full where "full = map (\<lambda>n. \<lparr>H = int 10, L = int 0, N = n, W = 2 ^ 10\<rparr>)
                               [a div 2 ^ 10 .. b div 2 ^ 10 - 1]"
  define part where "part = (let n = b div 2 ^ 10; w = b - n * 2 ^ 10
                             in if w > 0 then [\<lparr>H = int 10, L = int 0, N = n, W = w\<rparr>] else [])"
  have b: "0 < b" "a \<noteq> b" using assms by simp_all
  have unfold: "new_tiles_from 10 a b 0 = (full @ part) @ new_tiles_from 10 a b (Suc 0)"
    using b by (subst new_tiles_from.simps) (simp add: Let_def full_def part_def)
  have w: "b - b div 2 ^ 10 * 2 ^ 10 = b mod 2 ^ 10"
    by (simp add: minus_div_mult_eq_mod)
  have "level0_tile b p \<in> set (full @ part)"
  proof (cases "p div 1024 < b div 1024")
    case True
    have "a div 1024 \<le> p div 1024" using assms(2) by (simp add: zdiv_mono1)
    with True have "p div 1024 \<in> set [a div 2 ^ 10 .. b div 2 ^ 10 - 1]" by simp
    then have "\<lparr>H = int 10, L = int 0, N = p div 1024, W = 2 ^ 10\<rparr> \<in> set full"
      unfolding full_def set_map by (rule imageI)
    with True show ?thesis
      by (simp add: level0_tile_def tileHeight_def tileWidth_def)
  next
    case False
    have "p div 1024 \<le> b div 1024" using assms(3) by (simp add: zdiv_mono1)
    with False have q: "p div 1024 = b div 1024" by simp
    have "p mod 1024 < b mod 1024"
      using assms(3) q mult_div_mod_eq [of 1024 p] mult_div_mod_eq [of 1024 b] by linarith
    moreover have "0 \<le> p mod 1024" by simp
    ultimately have "0 < b mod 1024" by linarith
    then have "part = [\<lparr>H = int 10, L = int 0, N = b div 1024, W = b mod 1024\<rparr>]"
      using w by (simp add: part_def Let_def)
    with False q show ?thesis
      by (simp add: level0_tile_def tileHeight_def tileWidth_def)
  qed
  then show ?thesis unfolding unfold by auto
qed

lemma level0_tile_width:
  assumes "0 \<le> p" "p < b"
  shows "p mod 1024 < W (level0_tile b p) \<and> W (level0_tile b p) \<le> 1024"
proof (cases "p div 1024 < b div 1024")
  case True
  then show ?thesis by (simp add: level0_tile_def tileWidth_def tileHeight_def)
next
  case False
  have "p div 1024 \<le> b div 1024" using assms(2) by (simp add: zdiv_mono1)
  with False have q: "p div 1024 = b div 1024" by simp
  have "p mod 1024 < b mod 1024"
    using assms(2) q mult_div_mod_eq [of 1024 p] mult_div_mod_eq [of 1024 b] by linarith
  moreover have "b mod 1024 < 1024" by simp
  ultimately show ?thesis
    using False by (simp add: level0_tile_def tileWidth_def tileHeight_def)
qed

subsection \<open>The leaves of a round in the published tree\<close>

lemma stored_order:
  assumes seq: "sequencePool ev l = (Ok (), l')" and nn: "0 \<le> Tree_N (tree l)"
    and j: "j < length (pendingLeaves (pools l (currentPool l)))"
  shows "\<exists>mtl. merkleTreeLeaf (pendingLeaves (pools l (currentPool l)) ! j) (timeNowUnixMilli ev) = Ok mtl
           \<and> stored_leaf_hash (backend l') (Tree_N (tree l')) (Tree_N (tree l) + int j)
               = Some (RecordHash mtl)"
proof -
  let ?pend = "pendingLeaves (pools l (currentPool l))"
  let ?ts = "timeNowUnixMilli ev"
  define l1 where "l1 = l\<lparr>currentPool := Suc (currentPool l),
                          pools := (pools l)(Suc (currentPool l) := new_pool)\<rparr>"
  define N0 where "N0 = Tree_N (tree l)"
  define p where "p = N0 + int j"
  from sequencePool_Ok [OF seq] obtain t cp r where
    b: "build_round ev l1 (pools l (currentPool l)) ?ts = (Ok (t, cp), r)"
    and l': "l' = l\<lparr>currentPool := Suc (currentPool l),
                     pools := (pools l)(Suc (currentPool l) := new_pool,
                        currentPool l := (pools l (currentPool l))
                          \<lparr>timestamp := timeNowUnixMilli ev,
                           firstLeafIndex := Tree_N (tree l), done_closed := True\<rparr>),
                     backend := (run_uploads ev (uploads r) (backend l))(KeySth \<mapsto> cp),
                     tree := t, edgeTiles := r_edgeTiles r\<rparr>"
    unfolding l1_def by blast
  have be: "backend l' = (run_uploads ev (uploads r) (backend l))(KeySth \<mapsto> cp)"
    and tr: "tree l' = t"
    by (simp_all add: l')
  have l1: "tree l1 = tree l" "edgeTiles l1 = edgeTiles l" by (simp_all add: l1_def)
  from build_round_elim [OF b] obtain rA rB tiles where
    sl: "sequence_leaves (edgeTiles l1) ?ts (round_start l1) ?pend = (Ok (), rA)"
    and fl: "(if r_n rA mod tileWidth \<noteq> 0 then flush_data_tile rA (dataTile rA) else Ok rA) = Ok rB"
    and nt: "NewTiles tileHeight (Tree_N (tree l1)) (r_n rB) = Ok tiles"
    and ht: "hash_tiles (edgeTiles l1) rB tiles = (Ok (), r)"
    and wt: "Wait ev (uploads r) = None"
    by blast
  have n': "Tree_N t = N0 + int (length ?pend)" "r_n r = Tree_N t"
    using build_round_Ok [OF b] by (simp_all add: l1 N0_def)
  have rs: "r_n (round_start l1) = N0" "uploads (round_start l1) = []"
    by (simp_all add: round_start_def l1 N0_def)

  \<comment> \<open>the overlay holds the leaf's hash\<close>
  have nn': "0 \<le> r_n (round_start l1)" using nn by (simp add: rs N0_def)
  from sequence_leaves_overlay [OF sl nn', THEN conjunct1, rule_format, OF j] obtain mtl where
    m: "merkleTreeLeaf (?pend ! j) ?ts = Ok mtl"
    and ovA0: "newHashes rA (StoredHashIndex 0 (r_n (round_start l1) + int j)) = Some (RecordHash mtl)"
    by blast
  have ovA: "newHashes rA (StoredHashIndex 0 p) = Some (RecordHash mtl)"
    using ovA0 by (simp add: rs p_def)
  have rB: "newHashes rB = newHashes rA" "r_n rB = r_n rA" "data_uploads (uploads rB)"
  proof -
    have dA: "data_uploads (uploads rA)"
      using sequence_leaves_data_uploads [OF sl] by (simp add: rs data_uploads_def)
    show "newHashes rB = newHashes rA" "r_n rB = r_n rA"
      using fl by (auto split: if_splits dest!: flush_data_tile_Ok)
    show "data_uploads (uploads rB)"
      using fl dA by (auto split: if_splits dest: flush_data_uploads)
  qed
  have nB: "r_n rB = Tree_N t" using hash_tiles_n [OF ht] n' by simp

  \<comment> \<open>the tile of the leaf is one of the round's hash tiles\<close>
  have pr: "0 \<le> N0" "N0 \<le> p" "p < Tree_N t" "0 \<le> p"
    using nn j by (simp_all add: N0_def p_def n')
  define T where "T = level0_tile (Tree_N t) p"
  have tiles: "tiles = new_tiles_from 10 N0 (Tree_N t) 0"
    using nt by (simp add: NewTiles_def tileHeight_def l1 N0_def nB)
  have "T \<in> set tiles"
    unfolding T_def tiles by (rule level0_tile_in_new_tiles [OF pr(1,2,3)])
  then obtain i where i: "i < length tiles" "tiles ! i = T"
    by (auto simp: in_set_conv_nth)
  from hash_tiles_uploads [OF ht] obtain ds where
    ds: "length ds = length tiles"
      "\<forall>i < length tiles. ReadTileData (tiles ! i) (hashReader (edgeTiles l1) (newHashes rB)) = Ok (ds ! i)"
      "uploads r = uploads rB @ zip (map Path tiles) ds"
    by blast
  have rd: "ReadTileData T (hashReader (edgeTiles l1) (newHashes rA)) = Ok (ds ! i)"
    using ds(2) [rule_format, OF i(1)] by (simp add: i(2) rB)

  \<comment> \<open>its bytes hold the hash at the leaf's position\<close>
  have T: "H T = 10" "L T = 0" "N T = p div 1024"
    by (simp_all add: T_def level0_tile_def tileHeight_def tileWidth_def)
  have wd: "p mod 1024 < W T" "W T \<le> 1024"
    using level0_tile_width [OF pr(4,3)] by (simp_all add: T_def)
  have w0: "0 < W T" using wd pos_mod_sign [of 1024 p] by linarith
  have i0: "nat (p mod 1024) < nat (W T)" using wd by simp
  have idx: "StoredHashIndex (H T * L T) (N T * 2 ^ nat (H T) + int (nat (p mod 1024)))
             = StoredHashIndex 0 p"
    by (simp add: T)
  from ReadTileData_chunk [OF rd w0 i0] ovA idx
  have chunk: "take 32 (drop (32 * nat (p mod 1024)) (ds ! i)) = hash_bytes (RecordHash mtl)"
    and len: "length (ds ! i) = 32 * nat (W T)"
    by simp_all

  \<comment> \<open>and they are what the backend holds under the tile's path\<close>
  have ok: "\<forall>(k', d') \<in> set (uploads r). Upload ev k' d' = None"
    using Wait_None [OF wt] by auto
  have "zip (map Path tiles) ds ! i \<in> set (zip (map Path tiles) ds)"
    by (rule nth_mem) (simp add: i ds(1))
  then have mem: "(Path T, ds ! i) \<in> set (uploads r)"
    using i ds(1) by (simp add: ds(3))
  have uniq: "d' = ds ! i" if "(Path T, d') \<in> set (uploads r)" for d'
  proof -
    from that consider "(Path T, d') \<in> set (uploads rB)"
      | "(Path T, d') \<in> set (zip (map Path tiles) ds)"
      by (auto simp: ds(3))
    then show ?thesis
    proof cases
      case 1
      with rB(3) obtain t' where "Path T = Path t'" "L t' = - 1"
        by (auto simp: data_uploads_def)
      then have "L T = - 1" using Path_inject by blast
      with T show ?thesis by simp
    next
      case 2
      then obtain k where k0: "k < length (zip (map Path tiles) ds)"
        "zip (map Path tiles) ds ! k = (Path T, d')"
        unfolding in_set_conv_nth by blast
      then have k: "k < length tiles" "Path (tiles ! k) = Path T" "ds ! k = d'"
        using ds(1) by simp_all
      then have "tiles ! k = T" using Path_inject by blast
      with ds(2) [rule_format, OF k(1)]
      have "ReadTileData T (hashReader (edgeTiles l1) (newHashes rB)) = Ok (ds ! k)"
        by simp
      with rd k(3) show ?thesis by (simp add: rB)
    qed
  qed
  have "run_uploads ev (uploads r) (backend l) (Path T) = Some (ds ! i)"
  proof (rule run_uploads_unique [OF ok _ disjI1 [OF mem]])
    show "\<forall>d'. (Path T, d') \<in> set (uploads r) \<longrightarrow> d' = ds ! i"
      using uniq by blast
  qed
  then have st: "backend l' (Path T) = Some (ds ! i)"
    by (simp add: be Path_def)
  have "HashSize * (p mod tileWidth) + HashSize \<le> int (length (ds ! i))"
    using wd by (simp add: len HashSize_def tileWidth_def tileHeight_def)
  then have "stored_leaf_hash (backend l') (Tree_N t) p = Some (RecordHash mtl)"
    using st chunk
    by (simp add: stored_leaf_hash_def T_def [symmetric] tileWidth_def tileHeight_def)
  then show ?thesis
    using m by (auto simp: tr p_def N0_def)
qed

section \<open>Index assignment and ordering\<close>

text \<open>
  Claim C2. A leaf appended by \<^verbatim>\<open>addLeafToPool\<close> as entry \<open>k\<close> of its pool, with any
  leaves appended after it, and a round that starts at tree size \<open>N0\<close> and succeeds: the
  leaf's future yields \<open>N0 + k\<close>; the pool holds its leaves in the order they were appended;
  the future of the leaf at position \<open>j\<close> yields \<open>N0 + j\<close>; the tree grows by the length of
  the pool, so the pool's leaves take the indexes \<open>[N0, N0 + len)\<close>; and the leaves are
  sequenced in that order: in the tree the round publishes, the level-0 hash stored at
  index \<open>N0 + j\<close> is the record hash of the \<^verbatim>\<open>MerkleTreeLeaf\<close> of the leaf at position \<open>j\<close>
  of the pool, at the time of the round; for the leaf itself, the hash stored at \<open>N0 + k\<close>
  is the record hash of its own \<^verbatim>\<open>MerkleTreeLeaf\<close>.
\<close>

theorem index_assignment:
  assumes add: "addLeafToPool l leaf = (l1, fut)"
    and more: "l2 = foldl (\<lambda>l e. fst (addLeafToPool l e)) l1 later"
    and seq: "sequencePool ev l2 = (Ok (), l3)"
  shows "await l3 fut = Some (Tree_N (tree l2) + int (length (pendingLeaves (pools l (currentPool l)))))
       \<and> pendingLeaves (pools l2 (currentPool l2)) = pendingLeaves (pools l (currentPool l)) @ leaf # later
       \<and> (\<forall>j < length (pendingLeaves (pools l2 (currentPool l2))).
            await l3 (currentPool l2, j) = Some (Tree_N (tree l2) + int j))
       \<and> Tree_N (tree l3) = Tree_N (tree l2) + int (length (pendingLeaves (pools l2 (currentPool l2))))
       \<and> (0 \<le> Tree_N (tree l2) \<longrightarrow>
            (\<forall>j < length (pendingLeaves (pools l2 (currentPool l2))).
               \<exists>mtl. merkleTreeLeaf (pendingLeaves (pools l2 (currentPool l2)) ! j) (timeNowUnixMilli ev) = Ok mtl
                 \<and> stored_leaf_hash (backend l3) (Tree_N (tree l3)) (Tree_N (tree l2) + int j)
                     = Some (RecordHash mtl)))
       \<and> (0 \<le> Tree_N (tree l2) \<longrightarrow>
            (\<exists>mtl. merkleTreeLeaf leaf (timeNowUnixMilli ev) = Ok mtl
               \<and> stored_leaf_hash (backend l3) (Tree_N (tree l3))
                    (Tree_N (tree l2) + int (length (pendingLeaves (pools l (currentPool l)))))
                   = Some (RecordHash mtl)))"
proof -
  from add have fut: "fut = (currentPool l, length (pendingLeaves (pools l (currentPool l))))"
    and l1: "currentPool l1 = currentPool l" "tree l1 = tree l"
      "pendingLeaves (pools l1 (currentPool l)) = pendingLeaves (pools l (currentPool l)) @ [leaf]"
    by (auto simp: addLeafToPool_def Let_def)
  from addLeafToPool_fold [of l1 later] more l1
  have l2: "currentPool l2 = currentPool l" "tree l2 = tree l"
    "pendingLeaves (pools l2 (currentPool l2)) = pendingLeaves (pools l (currentPool l)) @ leaf # later"
    by simp_all
  from sequencePool_Ok [OF seq] obtain t cp r where
    b: "build_round ev (l2\<lparr>currentPool := Suc (currentPool l2),
                              pools := (pools l2)(Suc (currentPool l2) := new_pool)\<rparr>)
              (pools l2 (currentPool l2)) (timeNowUnixMilli ev) = (Ok (t, cp), r)"
    and l3: "l3 = l2\<lparr>currentPool := Suc (currentPool l2),
                     pools := (pools l2)(Suc (currentPool l2) := new_pool,
                        currentPool l2 := (pools l2 (currentPool l2))
                          \<lparr>timestamp := timeNowUnixMilli ev,
                           firstLeafIndex := Tree_N (tree l2), done_closed := True\<rparr>),
                     backend := (run_uploads ev (uploads r) (backend l2))(KeySth \<mapsto> cp),
                     tree := t, edgeTiles := r_edgeTiles r\<rparr>"
    by blast
  from build_round_Ok [OF b]
  have n: "Tree_N t = Tree_N (tree l2) + int (length (pendingLeaves (pools l2 (currentPool l2))))"
    by simp
  have first: "await l3 fut = Some (Tree_N (tree l2) + int (length (pendingLeaves (pools l (currentPool l)))))
       \<and> pendingLeaves (pools l2 (currentPool l2)) = pendingLeaves (pools l (currentPool l)) @ leaf # later
       \<and> (\<forall>j < length (pendingLeaves (pools l2 (currentPool l2))).
            await l3 (currentPool l2, j) = Some (Tree_N (tree l2) + int j))
       \<and> Tree_N (tree l3) = Tree_N (tree l2) + int (length (pendingLeaves (pools l2 (currentPool l2))))"
    using fut l2 n by (simp add: l3 await_def)
  have order: "\<exists>mtl. merkleTreeLeaf (pendingLeaves (pools l2 (currentPool l2)) ! j) (timeNowUnixMilli ev) = Ok mtl
                 \<and> stored_leaf_hash (backend l3) (Tree_N (tree l3)) (Tree_N (tree l2) + int j)
                     = Some (RecordHash mtl)"
    if "0 \<le> Tree_N (tree l2)" "j < length (pendingLeaves (pools l2 (currentPool l2)))" for j
    using stored_order [OF seq that] .
  have k: "length (pendingLeaves (pools l (currentPool l))) < length (pendingLeaves (pools l2 (currentPool l2)))"
    "pendingLeaves (pools l2 (currentPool l2)) ! length (pendingLeaves (pools l (currentPool l))) = leaf"
    by (simp_all add: l2(3))
  have own: "\<exists>mtl. merkleTreeLeaf leaf (timeNowUnixMilli ev) = Ok mtl
               \<and> stored_leaf_hash (backend l3) (Tree_N (tree l3))
                    (Tree_N (tree l2) + int (length (pendingLeaves (pools l (currentPool l)))))
                   = Some (RecordHash mtl)"
    if "0 \<le> Tree_N (tree l2)"
    using order [OF that k(1)] by (simp only: k(2))
  from first order own show ?thesis by blast
qed

subsection \<open>A round over three leaves, from a tree of size 1\<close>

text \<open>
  The leaf with certificate \<open>[2]\<close> is appended second (\<open>k = 1\<close>) to the pool of a log of
  size \<open>N0 = 1\<close>, between the leaves with certificates \<open>[1]\<close> and \<open>[3]\<close>.
\<close>

lemma sample_log_3_facts:
  "currentPool sample_log_3 = Suc 0"
  "Tree_N (tree sample_log_3) = 1"
  "pendingLeaves (pools sample_log_3 (Suc 0)) = [x509_entry [1], x509_entry [2], x509_entry [3]]"
  by (simp_all add: sample_log_3_def sample_log_1_def addLeafToPool_def Let_def new_pool_def)

lemma sample_round_3: "fst (sequencePool (sample_env 30) sample_log_3) = Ok ()"
  by (simp add: tlog_eval round_eval sample_log_3_def sample_log_1_def sample_leaf_def upt_conv_Cons)

theorem index_assignment_witness:
  "await sample_log_4 (1, 1) = Some 2
   \<and> await sample_log_4 (1, 0) = Some 1
   \<and> await sample_log_4 (1, 2) = Some 3
   \<and> Tree_N (tree sample_log_4) = 4
   \<and> stored_leaf_hash (backend sample_log_4) 4 1
       = Some (RecordHash [0, 0, 0, 0, 0, 0, 0, 0, 0, 30, 0, 0, 0, 1, 1, 0, 0])
   \<and> stored_leaf_hash (backend sample_log_4) 4 2
       = Some (RecordHash [0, 0, 0, 0, 0, 0, 0, 0, 0, 30, 0, 0, 0, 1, 2, 0, 0])
   \<and> stored_leaf_hash (backend sample_log_4) 4 3
       = Some (RecordHash [0, 0, 0, 0, 0, 0, 0, 0, 0, 30, 0, 0, 0, 1, 3, 0, 0])"
proof -
  define l where "l = fst (addLeafToPool sample_log_1 (x509_entry [1]))"
  define l1 where "l1 = fst (addLeafToPool l (x509_entry [2]))"
  have lf: "currentPool l = Suc 0" "pendingLeaves (pools l (Suc 0)) = [x509_entry [1]]"
    by (simp_all add: l_def sample_log_1_def addLeafToPool_def Let_def new_pool_def)
  have add: "addLeafToPool l (x509_entry [2]) = (l1, (1, 1))"
    using lf by (simp add: l1_def addLeafToPool_def Let_def)
  have more: "sample_log_3 = foldl (\<lambda>l e. fst (addLeafToPool l e)) l1 [x509_entry [3]]"
    by (simp add: sample_log_3_def l1_def l_def)
  have seq: "sequencePool (sample_env 30) sample_log_3 = (Ok (), sample_log_4)"
    using sample_round_3 by (simp add: sample_log_4_def prod_eq_iff)
  have m: "merkleTreeLeaf (x509_entry [c]) 30
             = Ok [0, 0, 0, 0, 0, 0, 0, 0, 0, 30, 0, 0, 0, 1, c, 0, 0]" for c
    by (simp add: merkleTreeLeaf_def timestampedEntry_def x509_entry_def builder_defs
        BytesOrPanic_def Bytes_def be_bytes_numeral Let_def)
  have t: "timeNowUnixMilli (sample_env 30) = 30"
    by (simp add: sample_env_def)
  note th = index_assignment [OF add more seq]
  from th have a: "await sample_log_4 (1, 1) = Some 2"
      "Tree_N (tree sample_log_4) = 4"
    by (simp_all add: sample_log_3_facts lf)
  from th have f: "\<forall>j<3. await sample_log_4 (1, j) = Some (1 + int j)"
    by (simp add: sample_log_3_facts lf)
  from th a(2) have s: "\<forall>j<3. \<exists>mtl. merkleTreeLeaf ([x509_entry [1], x509_entry [2], x509_entry [3]] ! j) 30 = Ok mtl
        \<and> stored_leaf_hash (backend sample_log_4) 4 (1 + int j) = Some (RecordHash mtl)"
    by (simp add: sample_log_3_facts lf t numeral_3_eq_3)
  from s [rule_format, of 0] s [rule_format, of 1] s [rule_format, of 2]
  have "stored_leaf_hash (backend sample_log_4) 4 1
       = Some (RecordHash [0, 0, 0, 0, 0, 0, 0, 0, 0, 30, 0, 0, 0, 1, 1, 0, 0])"
   "stored_leaf_hash (backend sample_log_4) 4 2
       = Some (RecordHash [0, 0, 0, 0, 0, 0, 0, 0, 0, 30, 0, 0, 0, 1, 2, 0, 0])"
   "stored_leaf_hash (backend sample_log_4) 4 3
       = Some (RecordHash [0, 0, 0, 0, 0, 0, 0, 0, 0, 30, 0, 0, 0, 1, 3, 0, 0])"
    by (simp_all add: m)
  with a f [rule_format, of 0] f [rule_format, of 2] show ?thesis by simp
qed
end
